theory Spec2Isabelle
  imports Main "HOL-Library.Word"
begin

section \<open>Messages, durations and package defaults\<close>

text \<open>
  Modelled from the spec: the declaration of the type \<open>Message\<close> is not among the
  sources (only its uses are). The spec calls it "an opaque byte/text payload" whose
  "identity is its content", and the tests pass Go strings for it, so it is a string.
\<close>

type_synonym Message = string

text \<open>\<open>time.Duration\<close> is a count of nanoseconds.\<close>

type_synonym Duration = int

definition Second :: Duration where
  "Second = 1000000000"

definition defaultShutdownGraceDuration :: Duration where
  "defaultShutdownGraceDuration = 3 * Second"

definition defaultEnqueueRetryDuration :: Duration where
  "defaultEnqueueRetryDuration = 3 * Second"

definition defaultBufferSize :: int where
  "defaultBufferSize = 1000"

definition defaultRateLimit :: "64 word" where
  "defaultRateLimit = 100"

definition defaultRateLimitRetryDuration :: Duration where
  "defaultRateLimitRetryDuration = 3 * Second"

definition defaultConcurrency :: int where
  "defaultConcurrency = 100"

section \<open>Error values\<close>

text \<open>
  Every error the packages build. The \<open>Errorf_\<close> constructors stand for the
  \<open>fmt.Errorf\<close> calls of the source, one per format string, and keep the formatted
  arguments; \<open>requestError\<close> and \<open>enqueueError\<close> are the two struct types with
  behaviour (\<open>IsRetryable\<close>, \<open>Message\<close>, \<open>IsTemporary\<close>, \<open>RetryAfter\<close>).
\<close>

datatype error =
    Errorf_request_failed int
  | Errorf_failed_to_enqueue Message
  | Errorf_rate_limit_reached
  | Errorf_dropping_msg Message error
  | Errorf_construct_request string
  | Errorf_send_request string
  | Errorf_grace_period_exceeded
  | Errorf_max_buffer_size int
  | requestError error Message bool
  | enqueueError error

fun is_requestError :: "error \<Rightarrow> bool" where
  "is_requestError (requestError e m r) = True"
| "is_requestError _ = False"

fun is_enqueueError :: "error \<Rightarrow> bool" where
  "is_enqueueError (enqueueError e) = True"
| "is_enqueueError _ = False"

definition newRequestError :: "int \<Rightarrow> Message \<Rightarrow> bool \<Rightarrow> error" where
  "newRequestError status msg retryable =
     requestError (Errorf_request_failed status) msg retryable"

text \<open>The methods of \<open>requestError\<close>; they exist on that struct only.\<close>

fun IsRetryable :: "error \<Rightarrow> bool" where
  "IsRetryable (requestError e m r) = r"

fun Message_of :: "error \<Rightarrow> Message" where
  "Message_of (requestError e m r) = m"

definition newEnqueueError :: "error \<Rightarrow> error" where
  "newEnqueueError e = enqueueError e"

text \<open>The methods of \<open>enqueueError\<close>.\<close>

fun IsTemporary :: "error \<Rightarrow> bool" where
  "IsTemporary (enqueueError e) = True"

fun RetryAfter :: "error \<Rightarrow> Duration" where
  "RetryAfter (enqueueError e) = defaultEnqueueRetryDuration"

section \<open>Response classification\<close>

definition is2XX :: "int \<Rightarrow> bool" where
  "is2XX status = (status \<ge> 200 \<and> status < 300)"

definition is5XX :: "int \<Rightarrow> bool" where
  "is5XX status = (status \<ge> 500)"

text \<open>
  \<open>classifyStatus\<close>: \<open>None\<close> is Go's \<open>nil\<close> error. The switch returns early for a 2xx
  status, sets \<open>retryable\<close> for a 5xx one, and falls through otherwise.
\<close>

definition classifyStatus :: "int \<Rightarrow> Message \<Rightarrow> error option" where
  "classifyStatus status msg =
     (if is2XX status then None
      else (let retryable = (if is5XX status then True else False)
            in Some (newRequestError status msg retryable)))"

section \<open>Channels\<close>

text \<open>
  A Go channel, as far as the packages use one: the buffered values in arrival order, the
  capacity fixed by \<open>make\<close>, and whether \<open>close\<close> has been called. An unbuffered channel has
  capacity 0.
\<close>

record 'a chan =
  buf :: "'a list"
  cap :: nat
  closed :: bool

definition new_chan :: "nat \<Rightarrow> 'a chan" where
  "new_chan n = \<lparr>buf = [], cap = n, closed = False\<rparr>"

text \<open>\<open>make(chan T, size)\<close> with an \<open>int\<close> size panics on a negative size (\<open>None\<close>).\<close>

definition make_chan :: "int \<Rightarrow> 'a chan option" where
  "make_chan n = (if n < 0 then None else Some (new_chan (nat n)))"

text \<open>
  What a function call can come to: it returns a value, it panics, or it has not returned
  after the steps of the environment it was given (it is still looping or blocked).
\<close>

datatype 'a outcome = Returns 'a | Panics | Running

text \<open>
  \<open>select { case ch <- v: ... default: ... }\<close>, the non-blocking send. The send proceeds
  when a receiver is blocked on the channel (which can only be while nothing is buffered:
  the value is handed over directly) or when the buffer has room; otherwise the default
  case runs. A send on a closed channel panics, in a select as anywhere.
\<close>

datatype 'a send_outcome = Handed | Buffered "'a chan" | NotReady | SendOnClosed

definition try_send :: "'a chan \<Rightarrow> bool \<Rightarrow> 'a \<Rightarrow> 'a send_outcome" where
  "try_send ch receiver_waiting v =
     (if closed ch then SendOnClosed
      else if receiver_waiting \<and> buf ch = [] then Handed
      else if length (buf ch) < cap ch then Buffered (ch\<lparr>buf := buf ch @ [v]\<rparr>)
      else NotReady)"

text \<open>
  \<open>v, ok := <-ch\<close> as a poll: a buffered value is received first in, first out, also after
  the channel was closed; a closed and drained channel gives \<open>ok = false\<close>; an open and
  empty one is not ready.
\<close>

datatype 'a recv_outcome = Received 'a "'a chan" | ClosedAndDrained | NothingToReceive

definition try_recv :: "'a chan \<Rightarrow> 'a recv_outcome" where
  "try_recv ch =
     (case buf ch of
        v # rest \<Rightarrow> Received v (ch\<lparr>buf := rest\<rparr>)
      | [] \<Rightarrow> (if closed ch then ClosedAndDrained else NothingToReceive))"

text \<open>\<open>close(ch)\<close> panics (\<open>None\<close>) on a channel that is closed already.\<close>

definition close_chan :: "'a chan \<Rightarrow> 'a chan option" where
  "close_chan ch = (if closed ch then None else Some (ch\<lparr>closed := True\<rparr>))"

text \<open>
  A select over two channel operations and, possibly, a default case. When both can
  proceed the runtime picks one pseudo-randomly: \<open>pick_first\<close> is that choice.
\<close>

datatype select_case = Case1 | Case2 | CaseDefault

definition select2 :: "bool \<Rightarrow> bool \<Rightarrow> bool \<Rightarrow> select_case" where
  "select2 first_ready second_ready pick_first =
     (if first_ready \<and> second_ready then (if pick_first then Case1 else Case2)
      else if first_ready then Case1
      else if second_ready then Case2
      else CaseDefault)"

section \<open>The rate limiter\<close>

text \<open>
  The struct's \<open>uint64\<close> fields are 64-bit words, so \<open>+\<close> and \<open>-\<close> wrap as Go's do. The field
  \<open>max\<close> is \<open>max_tokens\<close> here. \<open>refillEvery\<close> is computed in floating point in the source
  (one second divided by the rate, truncated); for a rate of zero the conversion has no
  defined result (\<open>None\<close>). It only sets the ticker's period.
\<close>

record RateLimiter =
  tokens :: "64 word"
  max_tokens :: "64 word"
  refillTokens :: "64 word"
  refillEvery :: "Duration option"
  stop :: "unit chan"

definition ratelimiter_New :: "64 word \<Rightarrow> 64 word \<Rightarrow> RateLimiter" where
  "ratelimiter_New rps refill =
     \<lparr>tokens = rps,
      max_tokens = rps,
      refillTokens = refill,
      refillEvery = (if rps = 0 then None else Some (Second div uint rps)),
      stop = new_chan 0\<rparr>"

text \<open>One tick of the ticker in \<open>Start\<close>'s goroutine: the critical section under the lock.\<close>

definition refill_tick :: "RateLimiter \<Rightarrow> RateLimiter" where
  "refill_tick r =
     (let t = tokens r + refillTokens r;
          t = (if t > max_tokens r then max_tokens r else t)
      in r\<lparr>tokens := t\<rparr>)"

definition Add :: "RateLimiter \<Rightarrow> bool \<times> RateLimiter" where
  "Add r =
     (if tokens r > 0 then (True, r\<lparr>tokens := tokens r - 1\<rparr>)
      else (False, r))"

definition ratelimiter_Stop :: "RateLimiter \<Rightarrow> RateLimiter option" where
  "ratelimiter_Stop r =
     (case close_chan (stop r) of None \<Rightarrow> None | Some ch \<Rightarrow> Some (r\<lparr>stop := ch\<rparr>))"

text \<open>
  Both critical sections run under the one mutex, so an interleaving of the refill
  goroutine with the callers of \<open>Add\<close> is a sequence of these two events.
\<close>

datatype rl_event = Tick | AddCall

fun rl_step :: "rl_event \<Rightarrow> RateLimiter \<Rightarrow> RateLimiter" where
  "rl_step Tick r = refill_tick r"
| "rl_step AddCall r = snd (Add r)"

fun rl_run :: "rl_event list \<Rightarrow> RateLimiter \<Rightarrow> RateLimiter" where
  "rl_run [] r = r"
| "rl_run (e # es) r = rl_run es (rl_step e r)"

section \<open>The notification client\<close>

record config =
  url :: string
  maxBufferSize :: int
  shutDownGraceDuration :: Duration
  maxConcurrency :: int

text \<open>
  The \<open>httpClient\<close> interface's \<open>Do\<close> is an injected collaborator: for a URL and a body it
  gives a transport error (its text) or the status code of the response.
\<close>

type_synonym httpClient = "string \<Rightarrow> Message \<Rightarrow> string + int"

text \<open>
  The fields of the struct that carry behaviour; the logger and the metrics are only
  written to. \<open>wg\<close> is the counter of the \<open>WaitGroup\<close>: \<open>Add(1)\<close> and \<open>Done()\<close> move it, and
  \<open>Wait()\<close> returns when it is zero. The field \<open>done\<close> is \<open>done_ch\<close> here.
\<close>

record Client =
  httpClient :: httpClient
  rl :: RateLimiter
  cfg :: config
  msgs :: "Message chan"
  errs :: "error chan"
  done_ch :: "unit chan"
  wg :: int

text \<open>
  The options. \<open>WithRateLimiter\<close> accepts any implementation of the \<open>rateLimiter\<close>
  interface; the model takes the package's own limiter in a state of the caller's choice.
\<close>

datatype Opt =
    WithHTTPClient httpClient
  | WithMaxBufferSize int
  | WithRateLimiter RateLimiter
  | WithMaxRpsAndRefill "64 word" "64 word"
  | WithShutDownGraceDuration Duration
  | WithLoggingEnabled
  | WithMetrics
  | WithMaxConcurrency int

fun apply_opt :: "Opt \<Rightarrow> Client \<Rightarrow> Client outcome" where
  "apply_opt (WithHTTPClient cli) c = Returns (c\<lparr>httpClient := cli\<rparr>)"
| "apply_opt (WithMaxBufferSize n) c =
     (case make_chan n of
        None \<Rightarrow> Panics
      | Some ch \<Rightarrow> Returns (c\<lparr>cfg := (cfg c)\<lparr>maxBufferSize := n\<rparr>, msgs := ch\<rparr>))"
| "apply_opt (WithRateLimiter r) c = Returns (c\<lparr>rl := r\<rparr>)"
| "apply_opt (WithMaxRpsAndRefill rps refill) c = Returns (c\<lparr>rl := ratelimiter_New rps refill\<rparr>)"
| "apply_opt (WithShutDownGraceDuration d) c =
     Returns (c\<lparr>cfg := (cfg c)\<lparr>shutDownGraceDuration := d\<rparr>\<rparr>)"
| "apply_opt WithLoggingEnabled c = Returns c"
| "apply_opt WithMetrics c = Returns c"
| "apply_opt (WithMaxConcurrency cn) c = Returns (c\<lparr>cfg := (cfg c)\<lparr>maxConcurrency := cn\<rparr>\<rparr>)"

fun apply_opts :: "Opt list \<Rightarrow> Client \<Rightarrow> Client outcome" where
  "apply_opts [] c = Returns c"
| "apply_opts (opt # opts) c =
     (case apply_opt opt c of
        Returns c' \<Rightarrow> apply_opts opts c'
      | Panics \<Rightarrow> Panics
      | Running \<Rightarrow> Running)"

text \<open>\<open>stock\<close> stands for the behaviour of the standard library's \<open>&http.Client{}\<close>.\<close>

definition NewClient :: "httpClient \<Rightarrow> string \<Rightarrow> Opt list \<Rightarrow> Client outcome" where
  "NewClient stock u opts =
     apply_opts opts
       \<lparr>httpClient = stock,
        rl = ratelimiter_New defaultRateLimit 1,
        cfg = \<lparr>url = u,
               maxBufferSize = defaultBufferSize,
               shutDownGraceDuration = defaultShutdownGraceDuration,
               maxConcurrency = defaultConcurrency\<rparr>,
        msgs = new_chan (nat defaultBufferSize),
        errs = new_chan 0,
        done_ch = new_chan 0,
        wg = 0\<rparr>"

subsection \<open>Notify\<close>

text \<open>
  One non-blocking send per message, returning at the first one that cannot proceed. The
  call is taken with the queue to itself: no worker receives, or is blocked receiving,
  while it runs, so a send proceeds exactly when the buffer has room.
\<close>

fun Notify :: "Client \<Rightarrow> Message list \<Rightarrow> (error option \<times> Client) outcome" where
  "Notify c [] = Returns (None, c)"
| "Notify c (msg # rest) =
     (case try_send (msgs c) False msg of
        Handed \<Rightarrow> Notify c rest
      | Buffered ch \<Rightarrow> Notify (c\<lparr>msgs := ch\<rparr>) rest
      | NotReady \<Rightarrow> Returns (Some (newEnqueueError (Errorf_failed_to_enqueue msg)), c)
      | SendOnClosed \<Rightarrow> Panics)"

text \<open>Successive calls of \<open>Notify\<close> with one message each, with the result of each call.\<close>

fun Notify_each :: "Client \<Rightarrow> Message list \<Rightarrow> (error option list \<times> Client) outcome" where
  "Notify_each c [] = Returns ([], c)"
| "Notify_each c (msg # rest) =
     (case Notify c [msg] of
        Returns (e, c1) \<Rightarrow>
          (case Notify_each c1 rest of
             Returns (es, c2) \<Rightarrow> Returns (e # es, c2)
           | Panics \<Rightarrow> Panics
           | Running \<Rightarrow> Running)
      | Panics \<Rightarrow> Panics
      | Running \<Rightarrow> Running)"

text \<open>Receiving \<open>n\<close> times from a channel, as the workers do, as long as a value is there.\<close>

fun drain :: "nat \<Rightarrow> 'a chan \<Rightarrow> 'a list \<times> 'a chan" where
  "drain 0 ch = ([], ch)"
| "drain (Suc n) ch =
     (case try_recv ch of
        Received v ch' \<Rightarrow> (case drain n ch' of (vs, ch'') \<Rightarrow> (v # vs, ch''))
      | ClosedAndDrained \<Rightarrow> ([], ch)
      | NothingToReceive \<Rightarrow> ([], ch))"

subsection \<open>The workers\<close>

text \<open>What a worker does that the outside can see.\<close>

datatype worker_event =
    Request Message
  | ErrorDelivered error
  | ErrorDropped error

definition sendError :: "Client \<Rightarrow> bool \<Rightarrow> error \<Rightarrow> (worker_event list \<times> Client) outcome" where
  "sendError c receiver_waiting err =
     (case try_send (errs c) receiver_waiting err of
        Handed \<Rightarrow> Returns ([ErrorDelivered err], c)
      | Buffered ch \<Rightarrow> Returns ([], c\<lparr>errs := ch\<rparr>)
      | NotReady \<Rightarrow> Returns ([ErrorDropped err], c)
      | SendOnClosed \<Rightarrow> Panics)"

text \<open>
  What one iteration of the loop in \<open>retryRateLimit\<close> meets: whether \<open>Stop\<close> has closed
  \<open>done\<close> since the last iteration, what the refill goroutine and the other workers did to
  the limiter meanwhile, how old the timer is when the select polls it, and the runtime's
  choice should both channels be ready. The timer is the one \<open>time.After\<close> makes when the
  select is entered, in this same iteration, since the channel operands of a select are
  evaluated on entering it.
\<close>

record obs =
  stop_called :: bool
  rl_events :: "rl_event list"
  timer_age :: Duration
  pick_first :: bool

definition env_step :: "obs \<Rightarrow> Client \<Rightarrow> Client" where
  "env_step ob c =
     (let c1 = (if stop_called ob then c\<lparr>done_ch := (done_ch c)\<lparr>closed := True\<rparr>\<rparr> else c)
      in c1\<lparr>rl := rl_run (rl_events ob) (rl c1)\<rparr>)"

text \<open>
  The loop, one observation per iteration; \<open>Running\<close> when it is still looping after the
  last one. \<open>None\<close> is the \<open>nil\<close> error.
\<close>

fun retryRateLimit :: "Client \<Rightarrow> obs list \<Rightarrow> (error option \<times> Client) outcome" where
  "retryRateLimit c [] = Running"
| "retryRateLimit c (ob # rest) =
     (let c1 = env_step ob c in
      case select2 (closed (done_ch c1))
                   (defaultRateLimitRetryDuration \<le> timer_age ob)
                   (pick_first ob) of
        Case1 \<Rightarrow> Returns (None, c1)
      | Case2 \<Rightarrow> Returns (Some Errorf_rate_limit_reached, c1)
      | CaseDefault \<Rightarrow>
          (case Add (rl c1) of
             (True, r) \<Rightarrow> Returns (None, c1\<lparr>rl := r\<rparr>)
           | (False, r) \<Rightarrow> retryRateLimit (c1\<lparr>rl := r\<rparr>) rest))"

text \<open>
  Three notions to speak about a wait. An iteration is undisturbed when \<open>Stop\<close> is not
  called before it and its select polls the timer before the retry duration has passed
  since the timer was made. The wait is refused along a schedule when at each iteration
  the limiter, after what the others did to it, has no token, so that \<open>Add\<close> returns
  false. A refused \<open>Add\<close> leaves the limiter as it is, so the client after such
  iterations is the one the environment's steps alone lead to.
\<close>

definition undisturbed :: "obs \<Rightarrow> bool" where
  "undisturbed ob = (\<not> stop_called ob \<and> timer_age ob < defaultRateLimitRetryDuration)"

fun refused :: "Client \<Rightarrow> obs list \<Rightarrow> bool" where
  "refused c [] = True"
| "refused c (ob # rest) = (tokens (rl (env_step ob c)) = 0 \<and> refused (env_step ob c) rest)"

fun wait_through :: "Client \<Rightarrow> obs list \<Rightarrow> Client" where
  "wait_through c [] = c"
| "wait_through c (ob # rest) = wait_through (env_step ob c) rest"

text \<open>
  \<open>send\<close>. \<open>newRequest\<close> stands for \<open>http.NewRequest\<close>: the error text for a URL it
  refuses. The result lists the request made, if one was, beside the error returned.
\<close>

definition send ::
  "(string \<Rightarrow> string option) \<Rightarrow> Client \<Rightarrow> Message \<Rightarrow> worker_event list \<times> error option" where
  "send newRequest c msg =
     (case newRequest (url (cfg c)) of
        Some e \<Rightarrow> ([], Some (Errorf_construct_request e))
      | None \<Rightarrow>
          (case httpClient c (url (cfg c)) msg of
             Inl e \<Rightarrow> ([Request msg], Some (Errorf_send_request e))
           | Inr status \<Rightarrow> ([Request msg], classifyStatus status msg)))"

text \<open>
  The body of the worker's loop for a message it has received: wait for admission, then
  report the drop or send. \<open>receiver_waiting\<close> says whether a consumer is blocked on the
  error channel when the worker's \<open>sendError\<close> runs.
\<close>

definition process ::
  "(string \<Rightarrow> string option) \<Rightarrow> Client \<Rightarrow> obs list \<Rightarrow> bool \<Rightarrow> Message \<Rightarrow>
     (worker_event list \<times> Client) outcome" where
  "process newRequest c schedule receiver_waiting msg =
     (case retryRateLimit c schedule of
        Running \<Rightarrow> Running
      | Panics \<Rightarrow> Panics
      | Returns (Some err, c1) \<Rightarrow> sendError c1 receiver_waiting (Errorf_dropping_msg msg err)
      | Returns (None, c1) \<Rightarrow>
          (case send newRequest c1 msg of
             (evs, None) \<Rightarrow> Returns (evs, c1)
           | (evs, Some err) \<Rightarrow>
               (case sendError c1 receiver_waiting err of
                  Returns (evs', c2) \<Rightarrow> Returns (evs @ evs', c2)
                | Panics \<Rightarrow> Panics
                | Running \<Rightarrow> Running)))"

text \<open>
  The loop of \<open>worker\<close>, one element of the environment per iteration of its select over
  the queue and \<open>done\<close>: whether \<open>Stop\<close> has closed \<open>done\<close> since the last one, the runtime's
  choice when both are ready, and, for a message received, the schedule its admission
  wait meets and whether a consumer is blocked on the error channel. A select with
  nothing ready blocks until the environment moves on. The result is the trace of the
  worker and how it ended (\<open>Running\<close>: still in its loop).
\<close>

record iteration =
  w_stop_called :: bool
  w_pick_first :: bool
  w_schedule :: "obs list"
  w_receiver_waiting :: bool

fun worker_loop ::
  "(string \<Rightarrow> string option) \<Rightarrow> Client \<Rightarrow> iteration list \<Rightarrow> worker_event list \<times> Client outcome" where
  "worker_loop newRequest c [] = ([], Running)"
| "worker_loop newRequest c (it # rest) =
     (let c1 = (if w_stop_called it then c\<lparr>done_ch := (done_ch c)\<lparr>closed := True\<rparr>\<rparr> else c) in
      case select2 (buf (msgs c1) \<noteq> [] \<or> closed (msgs c1)) (closed (done_ch c1))
                   (w_pick_first it) of
        Case1 \<Rightarrow>
          (case try_recv (msgs c1) of
             ClosedAndDrained \<Rightarrow> ([], Returns c1)
           | NothingToReceive \<Rightarrow> worker_loop newRequest c1 rest
           | Received msg ch \<Rightarrow>
               (case process newRequest (c1\<lparr>msgs := ch\<rparr>) (w_schedule it)
                       (w_receiver_waiting it) msg of
                  Returns (evs, c2) \<Rightarrow>
                    (case worker_loop newRequest c2 rest of (evs', r) \<Rightarrow> (evs @ evs', r))
                | Panics \<Rightarrow> ([], Panics)
                | Running \<Rightarrow> ([], Running)))
      | Case2 \<Rightarrow> ([], Returns c1)
      | CaseDefault \<Rightarrow> worker_loop newRequest c1 rest)"

text \<open>
  \<open>worker\<close>, the body of each goroutine \<open>Start\<close> launches: its first statement is
  \<open>c.wg.Add(1)\<close>, and \<open>c.wg.Done()\<close> is deferred to its return.
\<close>

definition worker ::
  "(string \<Rightarrow> string option) \<Rightarrow> Client \<Rightarrow> iteration list \<Rightarrow> worker_event list \<times> Client outcome" where
  "worker newRequest c its =
     (case worker_loop newRequest (c\<lparr>wg := wg c + 1\<rparr>) its of
        (evs, Returns c') \<Rightarrow> (evs, Returns (c'\<lparr>wg := wg c' - 1\<rparr>))
      | (evs, Panics) \<Rightarrow> (evs, Panics)
      | (evs, Running) \<Rightarrow> (evs, Running))"

text \<open>
  \<open>Start\<close> starts the limiter's refill goroutine and launches one goroutine per worker
  with \<open>go c.worker(i)\<close>. It writes to no field of the client, the \<open>WaitGroup\<close> included:
  a worker is counted once its own goroutine has run its first statement. The result is
  the client and the number of goroutines launched.
\<close>

definition Start :: "Client \<Rightarrow> Client \<times> nat" where
  "Start c = (c, nat (maxConcurrency (cfg c)))"

text \<open>The messages a trace makes requests for, in order.\<close>

fun requests :: "worker_event list \<Rightarrow> Message list" where
  "requests [] = []"
| "requests (Request m # evs) = m # requests evs"
| "requests (ErrorDelivered e # evs) = requests evs"
| "requests (ErrorDropped e # evs) = requests evs"

text \<open>
  A wait is admitted by a schedule when it is undisturbed throughout, refused up to the
  last iteration, and finds a token at the last one; the client after it is the one the
  environment's steps lead to, with that token taken. A worker is admitted for each
  message along its iterations when it is not shut down and each wait, starting from
  the limiter the one before left, is admitted by its schedule.
\<close>

definition admitted :: "Client \<Rightarrow> obs list \<Rightarrow> bool" where
  "admitted c schedule =
     (schedule \<noteq> [] \<and> list_all undisturbed schedule \<and> refused c (butlast schedule) \<and>
      tokens (rl (env_step (last schedule) (wait_through c (butlast schedule)))) \<noteq> 0)"

definition after_admission :: "Client \<Rightarrow> obs list \<Rightarrow> Client" where
  "after_admission c schedule =
     (let c1 = env_step (last schedule) (wait_through c (butlast schedule))
      in c1\<lparr>rl := snd (Add (rl c1))\<rparr>)"

fun admitted_each :: "Client \<Rightarrow> iteration list \<Rightarrow> bool" where
  "admitted_each c [] = True"
| "admitted_each c (it # rest) =
     (\<not> w_stop_called it \<and> admitted c (w_schedule it) \<and>
      admitted_each (after_admission c (w_schedule it)) rest)"

subsection \<open>Stop\<close>

text \<open>
  \<open>waitWithTimeout\<close> selects between the channel its goroutine closes once \<open>wg.Wait()\<close>
  returns and a timer of the grace duration. \<open>wg.Wait()\<close> returns at once when the
  counter is zero; otherwise \<open>wg_wait\<close> is the time from the call at which the workers
  counted have all called \<open>Done()\<close> (\<open>None\<close>: never). A timer of a duration of zero or less
  fires at once. The result is the error and the time spent in the select.
\<close>

record wait_env =
  wg_wait :: "Duration option"
  pick_done :: bool

definition waitWithTimeout :: "Client \<Rightarrow> wait_env \<Rightarrow> error option \<times> Duration" where
  "waitWithTimeout c env =
     (let fires = max 0 (shutDownGraceDuration (cfg c));
          released = (if wg c = 0 then Some 0 else wg_wait env) in
      case released of
        None \<Rightarrow> (Some Errorf_grace_period_exceeded, fires)
      | Some w \<Rightarrow>
          (if w < fires then (None, w)
           else if fires < w then (Some Errorf_grace_period_exceeded, fires)
           else (case select2 True True (pick_done env) of
                   Case1 \<Rightarrow> (None, w)
                 | Case2 \<Rightarrow> (Some Errorf_grace_period_exceeded, fires)
                 | CaseDefault \<Rightarrow> (None, w))))"

text \<open>\<open>Stop\<close>, statement by statement; each \<open>close\<close> panics on a closed channel.\<close>

definition Stop :: "Client \<Rightarrow> wait_env \<Rightarrow> (error option \<times> Client \<times> Duration) outcome" where
  "Stop c env =
     (case ratelimiter_Stop (rl c) of
        None \<Rightarrow> Panics
      | Some r \<Rightarrow>
     (case close_chan (done_ch c) of
        None \<Rightarrow> Panics
      | Some d \<Rightarrow>
     (let c1 = c\<lparr>rl := r, done_ch := d\<rparr>;
          (err, spent) = waitWithTimeout c1 env in
      case close_chan (errs c1) of
        None \<Rightarrow> Panics
      | Some e \<Rightarrow>
     (case close_chan (msgs c1) of
        None \<Rightarrow> Panics
      | Some m \<Rightarrow> Returns (err, c1\<lparr>errs := e, msgs := m\<rparr>, spent)))))"

section \<open>The timed buffer\<close>

text \<open>
  The struct of package \<open>timedbuffer\<close>; the field \<open>size\<close> is \<open>size_max\<close> here, and the
  ticker is its period. A \<open>nil\<close> slice is the empty list.
\<close>

record Buffer =
  ticker :: Duration
  flushCh :: "Message list chan"
  stopCh :: "unit chan"
  buffer :: "Message list"
  size_max :: int

text \<open>\<open>time.NewTicker\<close> panics on a period of zero or less.\<close>

definition timedbuffer_New :: "Duration \<Rightarrow> int \<Rightarrow> Buffer outcome" where
  "timedbuffer_New interval n =
     (if interval \<le> 0 then Panics
      else Returns \<lparr>ticker = interval,
                    flushCh = new_chan 0,
                    stopCh = new_chan 0,
                    buffer = [],
                    size_max = n\<rparr>)"

definition Append :: "Buffer \<Rightarrow> Message list \<Rightarrow> error option \<times> Buffer" where
  "Append b ms =
     (if length ms = 0 then (None, b)
      else if int (length (buffer b)) + int (length ms) > size_max b
        then (Some (Errorf_max_buffer_size (size_max b)), b)
      else (None, b\<lparr>buffer := buffer b @ ms\<rparr>))"

text \<open>The accumulator is within the size.\<close>

definition within_size :: "Buffer \<Rightarrow> bool" where
  "within_size b = (int (length (buffer b)) \<le> size_max b)"

text \<open>
  \<open>flush\<close>: the batch delivered on \<open>flushCh\<close>, if one was, and the buffer afterwards.
  \<open>receiver_ready\<close> says whether a receiver is blocked on \<open>flushCh\<close> at the send.
\<close>

definition flush :: "Buffer \<Rightarrow> bool \<Rightarrow> (Message list option \<times> Buffer) outcome" where
  "flush b receiver_ready =
     (let batch = buffer b;
          b1 = b\<lparr>buffer := []\<rparr>
      in if length batch = 0 then Returns (None, b1)
         else (case try_send (flushCh b1) receiver_ready batch of
                 Handed \<Rightarrow> Returns (Some batch, b1)
               | Buffered ch \<Rightarrow> Returns (None, b1\<lparr>flushCh := ch\<rparr>)
               | NotReady \<Rightarrow> Returns (None, b1)
               | SendOnClosed \<Rightarrow> Panics))"

text \<open>A run of \<open>Append\<close> calls, with the error of each.\<close>

fun appends :: "Buffer \<Rightarrow> Message list list \<Rightarrow> error option list \<times> Buffer" where
  "appends b [] = ([], b)"
| "appends b (ms # rest) =
     (case Append b ms of
        (e, b1) \<Rightarrow> (case appends b1 rest of (es, b2) \<Rightarrow> (e # es, b2)))"

text \<open>
  \<open>gather\<close>: the goroutine's loop over what its select receives, a tick of the ticker
  (with the readiness of a receiver on \<open>flushCh\<close> at that moment) or the closing of
  \<open>stopCh\<close>; it closes \<open>flushCh\<close> on return. The result lists what each tick delivered.
\<close>

datatype gather_event = TickerTick bool | StopClosed

fun gather :: "Buffer \<Rightarrow> gather_event list \<Rightarrow> (Message list option list \<times> Buffer) outcome" where
  "gather b [] = Running"
| "gather b (TickerTick receiver_ready # rest) =
     (case flush b receiver_ready of
        Returns (d, b1) \<Rightarrow>
          (case gather b1 rest of
             Returns (ds, b2) \<Rightarrow> Returns (d # ds, b2)
           | Panics \<Rightarrow> Panics
           | Running \<Rightarrow> Running)
      | Panics \<Rightarrow> Panics
      | Running \<Rightarrow> Running)"
| "gather b (StopClosed # rest) =
     (case close_chan (flushCh b) of
        None \<Rightarrow> Panics
      | Some ch \<Rightarrow> Returns ([], b\<lparr>flushCh := ch\<rparr>))"

section \<open>Example inputs\<close>

text \<open>
  The client of the test \<open>TestClient_Notify_Enqueue_Fail\<close>: a queue of one place, one
  worker, and a server that answers 201 to every request.
\<close>

definition created_201 :: httpClient where
  "created_201 u body = Inr 201"

definition small_client :: Client where
  "small_client =
     \<lparr>httpClient = created_201,
      rl = ratelimiter_New defaultRateLimit 1,
      cfg = \<lparr>url = ''http://server/notification'',
             maxBufferSize = 1,
             shutDownGraceDuration = defaultShutdownGraceDuration,
             maxConcurrency = 1\<rparr>,
      msgs = new_chan 1,
      errs = new_chan 0,
      done_ch = new_chan 0,
      wg = 0\<rparr>"

text \<open>
  Buffers of package \<open>timedbuffer\<close>: the full one of the test
  \<open>TestTimedBuffer_OverBufferSize\<close>, and the empty one of the other tests.
\<close>

definition buffer_of_five :: Buffer where
  "buffer_of_five =
     \<lparr>ticker = 3 * Second, flushCh = new_chan 0, stopCh = new_chan 0,
      buffer = [''1'', ''2'', ''3'', ''4'', ''5''], size_max = 5\<rparr>"

definition buffer_of_hundred :: Buffer where
  "buffer_of_hundred = \<lparr>ticker = 3 * Second, flushCh = new_chan 0, stopCh = new_chan 0, buffer = [], size_max = 100\<rparr>"

text \<open>
  The example client once its limiter, made with a rate of one and a refill of none as in
  the test \<open>TestRateLimiter_Add_NoTokens\<close>, has given out its one token; and three things
  an iteration of the admission wait can meet: a select that polls its timer a full
  second late, one that polls at once, and one before which \<open>Stop\<close> has closed \<open>done\<close>.
\<close>

definition throttled_client :: Client where
  "throttled_client = small_client\<lparr>rl := snd (Add (ratelimiter_New 1 0))\<rparr>"

definition one_second_late :: obs where
  "one_second_late = \<lparr>stop_called = False, rl_events = [Tick], timer_age = Second, pick_first = True\<rparr>"

definition still_waiting :: obs where
  "still_waiting = \<lparr>stop_called = False, rl_events = [Tick], timer_age = 0, pick_first = True\<rparr>"

definition stop_arrives :: obs where
  "stop_arrives = \<lparr>stop_called = True, rl_events = [], timer_age = 0, pick_first = True\<rparr>"

text \<open>
  A client with room for two messages whose limiter, made with a rate of one and a refill
  of one, has given out its one token; an iteration of a wait in which no tick has come;
  and an iteration of a worker whose wait is refused once and admitted after the tick.
\<close>

definition dry_client :: Client where
  "dry_client =
     small_client\<lparr>rl := snd (Add (ratelimiter_New 1 1)), msgs := new_chan 2\<rparr>"

definition no_tick :: obs where
  "no_tick = \<lparr>stop_called = False, rl_events = [], timer_age = 0, pick_first = True\<rparr>"

definition waits_for_tick :: iteration where
  "waits_for_tick =
     \<lparr>w_stop_called = False, w_pick_first = True,
      w_schedule = [no_tick, still_waiting], w_receiver_waiting = False\<rparr>"

text \<open>An iteration of a worker whose wait is admitted at once, a tick having come.\<close>

definition after_a_tick :: iteration where
  "after_a_tick =
     \<lparr>w_stop_called = False, w_pick_first = True, w_schedule = [still_waiting],
      w_receiver_waiting = False\<rparr>"

text \<open>
  A server that answers 500 to every request; an iteration of a worker whose select
  takes the queue; and a wait in which the workers counted are never done.
\<close>

definition error_500 :: httpClient where
  "error_500 u body = Inr 500"

definition takes_queue :: iteration where
  "takes_queue =
     \<lparr>w_stop_called = False, w_pick_first = True, w_schedule = [no_tick],
      w_receiver_waiting = False\<rparr>"

definition never_done :: wait_env where
  "never_done = \<lparr>wg_wait = None, pick_done = False\<rparr>"

text \<open>A client with the four channels closed that \<open>Stop\<close> closes.\<close>

definition stopped :: "Client \<Rightarrow> Client" where
  "stopped c =
     c\<lparr>rl := (rl c)\<lparr>stop := (stop (rl c))\<lparr>closed := True\<rparr>\<rparr>,
       done_ch := (done_ch c)\<lparr>closed := True\<rparr>,
       errs := (errs c)\<lparr>closed := True\<rparr>,
       msgs := (msgs c)\<lparr>closed := True\<rparr>\<rparr>"

section \<open>Properties of the response classification\<close>

text \<open>
  C3. For every integer status code \<open>s\<close> and message \<open>m\<close>: a status in [200, 300) gives
  no error; a status of 500 or more gives a \<open>requestError\<close> whose \<open>IsRetryable\<close> is true;
  every other status (below 200, or from 300 to 499) gives a \<open>requestError\<close> whose
  \<open>IsRetryable\<close> is false; and in both error cases the error carries the message \<open>m\<close>.
\<close>

theorem classifyStatus_classification:
  "(200 \<le> s \<and> s < 300 \<longrightarrow> classifyStatus s m = None) \<and>
   (500 \<le> s \<longrightarrow>
      (\<exists>e. classifyStatus s m = Some e \<and> is_requestError e \<and>
           IsRetryable e = True \<and> Message_of e = m)) \<and>
   (s < 200 \<or> (300 \<le> s \<and> s < 500) \<longrightarrow>
      (\<exists>e. classifyStatus s m = Some e \<and> is_requestError e \<and>
           IsRetryable e = False \<and> Message_of e = m))"
  by (auto simp: classifyStatus_def is2XX_def is5XX_def newRequestError_def)

theorem classifyStatus_classification_witness:
  "classifyStatus 201 ''hello'' = None \<and>
   (\<exists>e. classifyStatus 500 ''hello'' = Some e \<and> is_requestError e \<and>
        IsRetryable e = True \<and> Message_of e = ''hello'') \<and>
   (\<exists>e. classifyStatus 400 ''hello'' = Some e \<and> is_requestError e \<and>
        IsRetryable e = False \<and> Message_of e = ''hello'')"
  using classifyStatus_classification [of 201 "''hello''"]
        classifyStatus_classification [of 500 "''hello''"]
        classifyStatus_classification [of 400 "''hello''"]
  by simp

section \<open>Properties of the rate limiter\<close>

lemma refill_tick_le_max: "tokens (refill_tick r) \<le> max_tokens (refill_tick r)"
  by (simp add: refill_tick_def Let_def not_less)

lemma Add_le_max:
  assumes "tokens r \<le> max_tokens r"
  shows "tokens (snd (Add r)) \<le> max_tokens (snd (Add r))"
proof -
  have "tokens r - 1 \<le> tokens r" if "0 < tokens r"
  proof -
    from that have "tokens r \<noteq> 0" by auto
    then have "unat (tokens r - 1) < unat (tokens r)" by (rule measure_unat)
    then show ?thesis by (simp add: word_le_nat_alt)
  qed
  with assms show ?thesis by (auto simp: Add_def)
qed

lemma rl_step_fields:
  "max_tokens (rl_step e r) = max_tokens r" "refillTokens (rl_step e r) = refillTokens r"
  by (cases e; simp add: refill_tick_def Add_def Let_def)+

text \<open>The invariant: no interleaving of ticks and \<open>Add\<close> calls takes the tokens above \<open>max\<close>.\<close>

lemma rl_run_le_max:
  "tokens r \<le> max_tokens r \<Longrightarrow> tokens (rl_run es r) \<le> max_tokens (rl_run es r)"
proof (induction es arbitrary: r)
  case Nil
  then show ?case by simp
next
  case (Cons e es)
  have "tokens (rl_step e r) \<le> max_tokens (rl_step e r)"
    using Cons.prems by (cases e) (simp_all add: refill_tick_le_max Add_le_max)
  then show ?case using Cons.IH by simp
qed

lemma rl_run_New_le_max:
  "tokens (rl_run es (ratelimiter_New rps refill)) \<le> max_tokens (rl_run es (ratelimiter_New rps refill))"
  by (rule rl_run_le_max) (simp add: ratelimiter_New_def)

text \<open>As long as the sum fits 64 bits, a tick adds the refill and caps the result.\<close>

lemma refill_tick_no_overflow:
  assumes "unat (tokens r) + unat (refillTokens r) < 2 ^ 64"
  shows "unat (tokens (refill_tick r)) =
         min (unat (tokens r) + unat (refillTokens r)) (unat (max_tokens r))"
proof -
  have "unat (tokens r) + unat (refillTokens r) < 2 ^ LENGTH(64)"
    using assms by simp
  then have "unat (tokens r + refillTokens r) = unat (tokens r) + unat (refillTokens r)"
    by (simp only: unat_add_lem)
  then show ?thesis
    by (auto simp: refill_tick_def Let_def word_less_nat_alt min_def)
qed

lemma Add_result:
  "Add r = (if tokens r = 0 then (False, r) else (True, r\<lparr>tokens := tokens r - 1\<rparr>))"
  by (simp add: Add_def word_gt_0)

text \<open>A limiter with no token and a refill of none refuses every \<open>Add\<close>, whatever happens.\<close>

lemma rl_step_empty:
  assumes "tokens r = 0" "refillTokens r = 0"
  shows "rl_step e r = r"
  using assms by (cases e) (simp_all add: refill_tick_def Add_def Let_def)

lemma rl_run_empty:
  assumes "tokens r = 0" "refillTokens r = 0"
  shows "rl_run es r = r"
  using assms by (induction es) (simp_all add: rl_step_empty)

text \<open>
  C6. The claim has each refill tick set the tokens to the smaller of
  \<open>tokens + refillTokens\<close> and \<open>max\<close>. The sum is taken in 64 bits, and for the limiter made
  with a rate of 1 and a refill of 2^64 - 1 it wraps to 0: the tick of the full limiter
  (one token, \<open>max\<close> one) leaves it with no token, where the smaller of the sum and \<open>max\<close>
  is 1. The rest of the claim holds: \<open>rl_run_New_le_max\<close> (the tokens never exceed
  \<open>max\<close>), \<open>Add_result\<close>, and \<open>refill_tick_no_overflow\<close> for sums that fit.
\<close>

theorem refill_tick_overflow:
  "tokens (ratelimiter_New 1 18446744073709551615) = 1 \<and>
   refillTokens (ratelimiter_New 1 18446744073709551615) = 18446744073709551615 \<and>
   max_tokens (ratelimiter_New 1 18446744073709551615) = 1 \<and>
   tokens (refill_tick (ratelimiter_New 1 18446744073709551615)) = 0 \<and>
   min (unat (tokens (ratelimiter_New 1 18446744073709551615)) +
        unat (refillTokens (ratelimiter_New 1 18446744073709551615)))
       (unat (max_tokens (ratelimiter_New 1 18446744073709551615))) = 1"
  by (simp add: refill_tick_def ratelimiter_New_def Let_def word_less_nat_alt)

section \<open>Properties of Notify\<close>

text \<open>
  What \<open>Notify\<close> does on an open queue: with \<open>free\<close> places left, the first \<open>free\<close>
  messages are appended, and the call fails on the next one, if there is one.
\<close>

lemma Notify_open:
  assumes "\<not> closed (msgs c)"
  shows "Notify c ms =
     (let free = cap (msgs c) - length (buf (msgs c)) in
      if length ms \<le> free
      then Returns (None, c\<lparr>msgs := (msgs c)\<lparr>buf := buf (msgs c) @ ms\<rparr>\<rparr>)
      else Returns (Some (newEnqueueError (Errorf_failed_to_enqueue (ms ! free))),
                    c\<lparr>msgs := (msgs c)\<lparr>buf := buf (msgs c) @ take free ms\<rparr>\<rparr>))"
  using assms
proof (induction ms arbitrary: c)
  case Nil
  then show ?case by simp
next
  case (Cons m ms)
  show ?case
  proof (cases "length (buf (msgs c)) < cap (msgs c)")
    case True
    let ?c1 = "c\<lparr>msgs := (msgs c)\<lparr>buf := buf (msgs c) @ [m]\<rparr>\<rparr>"
    have step: "Notify c (m # ms) = Notify ?c1 ms"
      using True Cons.prems by (simp add: try_send_def)
    have open1: "\<not> closed (msgs ?c1)"
      using Cons.prems by simp
    have free1: "cap (msgs ?c1) - length (buf (msgs ?c1)) =
                 cap (msgs c) - length (buf (msgs c)) - 1"
      by simp
    obtain k where k: "cap (msgs c) - length (buf (msgs c)) = Suc k"
      using True by (metis Suc_diff_Suc)
    show ?thesis
      unfolding step Cons.IH [OF open1] free1 k
      by (simp add: Let_def)
  next
    case False
    then have "cap (msgs c) - length (buf (msgs c)) = 0"
      by simp
    then show ?thesis
      using False Cons.prems by (simp add: try_send_def Let_def)
  qed
qed

lemma Notify_each_room:
  assumes "\<not> closed (msgs c)" "length (buf (msgs c)) + length ms \<le> cap (msgs c)"
  shows "Notify_each c ms =
         Returns (replicate (length ms) None, c\<lparr>msgs := (msgs c)\<lparr>buf := buf (msgs c) @ ms\<rparr>\<rparr>)"
  using assms
proof (induction ms arbitrary: c)
  case Nil
  then show ?case by simp
next
  case (Cons m ms)
  let ?c1 = "c\<lparr>msgs := (msgs c)\<lparr>buf := buf (msgs c) @ [m]\<rparr>\<rparr>"
  have one: "Notify c [m] = Returns (None, ?c1)"
    using Cons.prems by (simp add: try_send_def)
  have "Notify_each ?c1 ms =
        Returns (replicate (length ms) None, ?c1\<lparr>msgs := (msgs ?c1)\<lparr>buf := buf (msgs ?c1) @ ms\<rparr>\<rparr>)"
    using Cons.prems by (intro Cons.IH) simp_all
  then show ?case using one by simp
qed

lemma Notify_full:
  assumes "\<not> closed (msgs c)" "cap (msgs c) \<le> length (buf (msgs c))"
  shows "Notify c (m # ms) = Returns (Some (newEnqueueError (Errorf_failed_to_enqueue m)), c)"
  using assms by (simp add: try_send_def)

text \<open>Receiving as often as there are buffered values gives them all, first in, first out.\<close>

lemma drain_buf:
  "drain (length (buf ch)) ch = (buf ch, ch\<lparr>buf := []\<rparr>)"
proof (induction "buf ch" arbitrary: ch)
  case Nil
  then show ?case by simp
next
  case (Cons v vs)
  from Cons.hyps(2) have b: "buf ch = v # vs" by simp
  have "drain (length vs) (ch\<lparr>buf := vs\<rparr>) = (vs, ch\<lparr>buf := vs, buf := []\<rparr>)"
    using Cons.hyps(1) [of "ch\<lparr>buf := vs\<rparr>"] by simp
  then show ?case using b by (simp add: try_recv_def)
qed

text \<open>The example client is what \<open>NewClient\<close> builds from the test's options.\<close>

lemma small_client_NewClient:
  "NewClient created_201 ''http://server/notification'' [WithMaxBufferSize 1, WithMaxConcurrency 1]
   = Returns small_client"
  by (simp add: NewClient_def small_client_def make_chan_def)

text \<open>
  C4. On an open queue that no worker drains: (1) when the queue is empty and has capacity
  \<open>C\<close>, \<open>C\<close> successive calls with one message each all return \<open>nil\<close>, and after them a call
  with any one message fails with an \<open>enqueueError\<close> whose \<open>IsTemporary\<close> is true and whose
  \<open>RetryAfter\<close> is three seconds; (2) every call returns (it never blocks); (3) a call
  that returns \<open>nil\<close> has appended every one of its messages; (4) a call that returns an
  error was rejected at some message \<open>i\<close>, has appended exactly the messages before it and
  none after, and its error is an \<open>enqueueError\<close> for message \<open>i\<close> with \<open>IsTemporary\<close> true
  and \<open>RetryAfter\<close> three seconds.
\<close>

theorem Notify_queue_bound:
  assumes "\<not> closed (msgs c)"
  shows
   "(buf (msgs c) = [] \<and> length ms = cap (msgs c) \<longrightarrow>
       (\<exists>c'. Notify_each c ms = Returns (replicate (cap (msgs c)) None, c') \<and>
             (\<forall>m. \<exists>e. Notify c' [m] = Returns (Some e, c') \<and> is_enqueueError e \<and>
                        IsTemporary e \<and> RetryAfter e = 3 * Second))) \<and>
    (\<exists>r. Notify c ms = Returns r) \<and>
    (\<forall>c'. Notify c ms = Returns (None, c') \<longrightarrow> buf (msgs c') = buf (msgs c) @ ms) \<and>
    (\<forall>e c'. Notify c ms = Returns (Some e, c') \<longrightarrow>
       (\<exists>i<length ms. e = newEnqueueError (Errorf_failed_to_enqueue (ms ! i)) \<and>
                      buf (msgs c') = buf (msgs c) @ take i ms \<and>
                      is_enqueueError e \<and> IsTemporary e \<and> RetryAfter e = 3 * Second))"
proof (intro conjI impI allI)
  assume a: "buf (msgs c) = [] \<and> length ms = cap (msgs c)"
  let ?c' = "c\<lparr>msgs := (msgs c)\<lparr>buf := buf (msgs c) @ ms\<rparr>\<rparr>"
  have each: "Notify_each c ms = Returns (replicate (cap (msgs c)) None, ?c')"
    using Notify_each_room [of c ms] assms a by simp
  have full: "\<exists>e. Notify ?c' [m] = Returns (Some e, ?c') \<and> is_enqueueError e \<and>
                  IsTemporary e \<and> RetryAfter e = 3 * Second" for m
    using Notify_full [of ?c' m "[]"] assms a
    by (simp add: newEnqueueError_def defaultEnqueueRetryDuration_def)
  from each full
  show "\<exists>c'. Notify_each c ms = Returns (replicate (cap (msgs c)) None, c') \<and>
             (\<forall>m. \<exists>e. Notify c' [m] = Returns (Some e, c') \<and> is_enqueueError e \<and>
                        IsTemporary e \<and> RetryAfter e = 3 * Second)"
    by blast
next
  show "\<exists>r. Notify c ms = Returns r"
    by (simp add: Notify_open [OF assms] Let_def)
next
  fix c'
  assume "Notify c ms = Returns (None, c')"
  then show "buf (msgs c') = buf (msgs c) @ ms"
    by (auto simp: Notify_open [OF assms] Let_def split: if_splits)
next
  fix e c'
  assume r: "Notify c ms = Returns (Some e, c')"
  let ?free = "cap (msgs c) - length (buf (msgs c))"
  from r have lt: "?free < length ms"
    and e: "e = newEnqueueError (Errorf_failed_to_enqueue (ms ! ?free))"
    and c': "c' = c\<lparr>msgs := (msgs c)\<lparr>buf := buf (msgs c) @ take ?free ms\<rparr>\<rparr>"
    by (auto simp: Notify_open [OF assms] Let_def split: if_splits)
  show "\<exists>i<length ms. e = newEnqueueError (Errorf_failed_to_enqueue (ms ! i)) \<and>
                      buf (msgs c') = buf (msgs c) @ take i ms \<and>
                      is_enqueueError e \<and> IsTemporary e \<and> RetryAfter e = 3 * Second"
    using lt e c'
    by (intro exI [of _ ?free]) (simp add: newEnqueueError_def defaultEnqueueRetryDuration_def)
qed

theorem Notify_queue_bound_witness:
  "\<not> closed (msgs small_client) \<and> buf (msgs small_client) = [] \<and>
   length [''hello''] = cap (msgs small_client) \<and>
   (\<exists>c'. Notify_each small_client [''hello''] = Returns (replicate (cap (msgs small_client)) None, c') \<and>
         (\<exists>e. Notify c' [''hello2''] = Returns (Some e, c') \<and> is_enqueueError e \<and>
              IsTemporary e \<and> RetryAfter e = 3 * Second)) \<and>
   (\<exists>e c'. Notify small_client [''hello'', ''hello2''] = Returns (Some e, c') \<and>
          buf (msgs c') = [''hello''] \<and> IsTemporary e \<and> RetryAfter e = 3 * Second)"
proof -
  have o: "\<not> closed (msgs small_client)"
    by (simp add: small_client_def new_chan_def)
  have b: "buf (msgs small_client) = [] \<and> length [''hello''] = cap (msgs small_client)"
    by (simp add: small_client_def new_chan_def)
  from Notify_queue_bound [OF o, of "[''hello'']"] b
  have 1: "\<exists>c'. Notify_each small_client [''hello''] = Returns (replicate (cap (msgs small_client)) None, c') \<and>
         (\<exists>e. Notify c' [''hello2''] = Returns (Some e, c') \<and> is_enqueueError e \<and>
              IsTemporary e \<and> RetryAfter e = 3 * Second)"
    by blast
  have r: "\<exists>e c'. Notify small_client [''hello'', ''hello2''] = Returns (Some e, c')"
    by (simp add: small_client_def new_chan_def try_send_def)
  then obtain e c' where ec: "Notify small_client [''hello'', ''hello2''] = Returns (Some e, c')"
    by blast
  with Notify_queue_bound [OF o, of "[''hello'', ''hello2'']"]
  obtain i where i: "i < length [''hello'', ''hello2'']"
      "buf (msgs c') = buf (msgs small_client) @ take i [''hello'', ''hello2'']"
      "IsTemporary e" "RetryAfter e = 3 * Second"
    by blast
  from ec have "buf (msgs c') = [''hello'']"
    by (simp add: small_client_def new_chan_def try_send_def newEnqueueError_def) auto
  with ec i 1 o b show ?thesis by blast
qed

section \<open>Properties of the timed buffer\<close>

text \<open>
  The accumulator never holds more than the size: it is so in a buffer made with a size
  of zero or more, and \<open>Append\<close> and \<open>flush\<close> keep it so.
\<close>

lemma timedbuffer_New_within_size:
  "timedbuffer_New interval n = Returns b \<Longrightarrow> 0 \<le> n \<Longrightarrow> within_size b"
  by (auto simp: timedbuffer_New_def within_size_def split: if_splits)

lemma Append_within_size: "within_size b \<Longrightarrow> within_size (snd (Append b ms))"
  by (auto simp: Append_def within_size_def)

lemma flush_within_size:
  "within_size b \<Longrightarrow> flush b r = Returns (d, b') \<Longrightarrow> within_size b'"
  by (auto simp: flush_def within_size_def Let_def split: if_splits send_outcome.splits)

lemma appends_within_size: "within_size b \<Longrightarrow> within_size (snd (appends b calls))"
proof (induction calls arbitrary: b)
  case Nil
  then show ?case by simp
next
  case (Cons ms calls)
  have "within_size (snd (Append b ms))"
    using Cons.prems by (rule Append_within_size)
  then have "within_size (snd (appends (snd (Append b ms)) calls))"
    by (rule Cons.IH)
  then show ?case
    by (simp add: case_prod_beta)
qed

text \<open>
  C7. For every buffer whose accumulated content \<open>B\<close> is within the size, as it is in
  every buffer made with a size of zero or more and used through \<open>Append\<close> and the
  ticker's flush, and every call with messages \<open>M\<close>: if \<open>|B| + |M|\<close> exceeds the size, the
  call returns the capacity error and the buffer is as it was, with no element of \<open>M\<close>
  added; otherwise the call returns \<open>nil\<close> and the accumulator is \<open>B\<close> followed by \<open>M\<close>.
\<close>

theorem Append_all_or_nothing:
  assumes "int (length (buffer b)) \<le> size_max b"
  shows "(size_max b < int (length (buffer b)) + int (length ms) \<longrightarrow>
            Append b ms = (Some (Errorf_max_buffer_size (size_max b)), b) \<and>
            buffer (snd (Append b ms)) = buffer b) \<and>
         (int (length (buffer b)) + int (length ms) \<le> size_max b \<longrightarrow>
            Append b ms = (None, b\<lparr>buffer := buffer b @ ms\<rparr>) \<and>
            buffer (snd (Append b ms)) = buffer b @ ms)"
  using assms by (auto simp: Append_def)

theorem Append_all_or_nothing_witness:
  "int (length (buffer buffer_of_five)) \<le> size_max buffer_of_five \<and>
   Append buffer_of_five [''msg''] = (Some (Errorf_max_buffer_size 5), buffer_of_five) \<and>
   buffer (snd (Append buffer_of_five [''msg''])) = [''1'', ''2'', ''3'', ''4'', ''5''] \<and>
   Append (buffer_of_five\<lparr>buffer := [''1'']\<rparr>) [''2'', ''3''] =
     (None, buffer_of_five\<lparr>buffer := [''1'', ''2'', ''3'']\<rparr>) \<and>
   Append buffer_of_five [] = (None, buffer_of_five)"
proof -
  have w: "int (length (buffer buffer_of_five)) \<le> size_max buffer_of_five"
    "int (length (buffer (buffer_of_five\<lparr>buffer := [''1'']\<rparr>))) \<le>
       size_max (buffer_of_five\<lparr>buffer := [''1'']\<rparr>)"
    by (simp_all add: buffer_of_five_def)
  from Append_all_or_nothing [OF w(1), of "[''msg'']"]
       Append_all_or_nothing [OF w(1), of "[]"]
       Append_all_or_nothing [OF w(2), of "[''2'', ''3'']"] w
  show ?thesis
    by (simp add: buffer_of_five_def)
qed

text \<open>Calls that fit together all succeed, and accumulate in the order of the calls.\<close>

lemma appends_fit:
  assumes "int (length (buffer b)) + int (length (concat calls)) \<le> size_max b"
  shows "appends b calls = (replicate (length calls) None, b\<lparr>buffer := buffer b @ concat calls\<rparr>)"
  using assms
proof (induction calls arbitrary: b)
  case Nil
  then show ?case by simp
next
  case (Cons ms calls)
  let ?b1 = "b\<lparr>buffer := buffer b @ ms\<rparr>"
  have one: "Append b ms = (None, ?b1)"
    using Cons.prems by (auto simp: Append_def)
  have "appends ?b1 calls = (replicate (length calls) None, ?b1\<lparr>buffer := buffer ?b1 @ concat calls\<rparr>)"
    using Cons.prems by (intro Cons.IH) simp
  then show ?case using one by simp
qed

lemma flush_ready:
  assumes "\<not> closed (flushCh b)" "buf (flushCh b) = []"
  shows "flush b True = Returns (if buffer b = [] then None else Some (buffer b), b\<lparr>buffer := []\<rparr>)"
  using assms by (simp add: flush_def try_send_def Let_def)

lemma flush_nonempty_only:
  assumes "flush b r = Returns (Some d, b')"
  shows "d \<noteq> [] \<and> d = buffer b"
  using assms by (auto simp: flush_def Let_def split: if_splits send_outcome.splits)

text \<open>
  C8. On a buffer as \<open>timedbuffer.New\<close> makes it, after \<open>Append\<close> calls whose messages
  \<open>m1..mk\<close> number at most the size: every call returned \<open>nil\<close>, the accumulator holds
  \<open>m1..mk\<close> in insertion order, and the flush of the next tick, with a receiver ready on
  the flush channel, delivers the one batch \<open>m1..mk\<close> (none when \<open>k = 0\<close>) and leaves the
  accumulator empty; the tick after it delivers nothing. Whatever the buffer, a flush
  that delivers a batch delivers a non-empty one, the accumulator it found.
\<close>

theorem flush_delivers_appended_batch:
  assumes "timedbuffer_New interval n = Returns b0"
      and "int (length (concat calls)) \<le> n"
  shows "\<exists>b. appends b0 calls = (replicate (length calls) None, b) \<and>
             buffer b = concat calls \<and>
             flush b True =
               Returns (if concat calls = [] then None else Some (concat calls), b\<lparr>buffer := []\<rparr>) \<and>
             gather b [TickerTick True, TickerTick True, StopClosed] =
               Returns ([if concat calls = [] then None else Some (concat calls), None],
                        b\<lparr>buffer := [], flushCh := (flushCh b)\<lparr>closed := True\<rparr>\<rparr>) \<and>
             (\<forall>b' r d b''. flush b' r = Returns (Some d, b'') \<longrightarrow> d \<noteq> [] \<and> d = buffer b')"
proof -
  from assms(1) have b0: "buffer b0 = []" "size_max b0 = n"
      "\<not> closed (flushCh b0)" "buf (flushCh b0) = []"
    by (auto simp: timedbuffer_New_def new_chan_def split: if_splits)
  define b where "b = b0\<lparr>buffer := concat calls\<rparr>"
  have b: "buffer b = concat calls" "\<not> closed (flushCh b)" "buf (flushCh b) = []"
    using b0 by (simp_all add: b_def)
  let ?e = "b\<lparr>buffer := []\<rparr>"
  have a: "appends b0 calls = (replicate (length calls) None, b)"
    using appends_fit [of b0 calls] assms(2) b0 by (simp add: b_def)
  have f: "flush b True =
           Returns (if concat calls = [] then None else Some (concat calls), ?e)"
    using flush_ready [of b] b by simp
  have f2: "flush ?e True = Returns (None, ?e)"
    using flush_ready [of ?e] b by simp
  have "gather ?e [StopClosed] = Returns ([], ?e\<lparr>flushCh := (flushCh b)\<lparr>closed := True\<rparr>\<rparr>)"
    using b by (simp add: close_chan_def)
  then have "gather ?e [TickerTick True, StopClosed] =
             Returns ([None], ?e\<lparr>flushCh := (flushCh b)\<lparr>closed := True\<rparr>\<rparr>)"
    by (simp add: f2)
  then have g: "gather b [TickerTick True, TickerTick True, StopClosed] =
           Returns ([if concat calls = [] then None else Some (concat calls), None],
                    b\<lparr>buffer := [], flushCh := (flushCh b)\<lparr>closed := True\<rparr>\<rparr>)"
    by (simp add: f)
  have n: "\<forall>b' r d b''. flush b' r = Returns (Some d, b'') \<longrightarrow> d \<noteq> [] \<and> d = buffer b'"
    using flush_nonempty_only by blast
  from a b(1) f g n show ?thesis
    by blast
qed

theorem flush_delivers_appended_batch_witness:
  "timedbuffer_New (3 * Second) 100 = Returns buffer_of_hundred \<and>
   int (length (concat [[''a'', ''b''], [''c'']])) \<le> 100 \<and>
   appends buffer_of_hundred [[''a'', ''b''], [''c'']] = ([None, None], buffer_of_hundred\<lparr>buffer := [''a'', ''b'', ''c'']\<rparr>) \<and>
   flush (buffer_of_hundred\<lparr>buffer := [''a'', ''b'', ''c'']\<rparr>) True =
      Returns (Some [''a'', ''b'', ''c''], buffer_of_hundred) \<and>
   flush buffer_of_hundred True = Returns (None, buffer_of_hundred)"
proof -
  have n: "timedbuffer_New (3 * Second) 100 = Returns buffer_of_hundred"
    by (simp add: timedbuffer_New_def buffer_of_hundred_def Second_def)
  have l: "int (length (concat [[''a'', ''b''], [''c'']])) \<le> 100"
    by simp
  from flush_delivers_appended_batch [OF n l]
  obtain b where b: "appends buffer_of_hundred [[''a'', ''b''], [''c'']] = (replicate (length [[''a'', ''b''], [''c'']]) None, b)"
      "buffer b = concat [[''a'', ''b''], [''c'']]"
      "flush b True = Returns (if concat [[''a'', ''b''], [''c'']] = [] then None
                               else Some (concat [[''a'', ''b''], [''c'']]), b\<lparr>buffer := []\<rparr>)"
    by blast
  have e: "appends buffer_of_hundred [[''a'', ''b''], [''c'']] = ([None, None], buffer_of_hundred\<lparr>buffer := [''a'', ''b'', ''c'']\<rparr>)"
    by (simp add: Append_def buffer_of_hundred_def)
  with b(1) have "b = buffer_of_hundred\<lparr>buffer := [''a'', ''b'', ''c'']\<rparr>"
    by simp
  with b(3) have "flush (buffer_of_hundred\<lparr>buffer := [''a'', ''b'', ''c'']\<rparr>) True = Returns (Some [''a'', ''b'', ''c''], buffer_of_hundred)"
    by (simp add: buffer_of_hundred_def)
  moreover have "flush buffer_of_hundred True = Returns (None, buffer_of_hundred)"
    by (simp add: flush_def buffer_of_hundred_def)
  ultimately show ?thesis using n l e by simp
qed

section \<open>Properties of the error channel\<close>

text \<open>No option touches the error channel.\<close>

lemma apply_opt_errs: "apply_opt opt c = Returns c' \<Longrightarrow> errs c' = errs c"
  by (cases opt) (auto split: option.splits)

lemma apply_opts_errs: "apply_opts opts c = Returns c' \<Longrightarrow> errs c' = errs c"
proof (induction opts arbitrary: c)
  case Nil
  then show ?case by simp
next
  case (Cons opt opts)
  then show ?case
    by (auto split: outcome.splits dest: apply_opt_errs)
qed

text \<open>
  Nor does \<open>Notify\<close>, the admission wait, or the handling of a message: the error channel
  of a client is the one \<open>NewClient\<close> made until \<open>Stop\<close> closes it.
\<close>

lemma Notify_errs: "Notify c ms = Returns (e, c') \<Longrightarrow> errs c' = errs c"
proof (induction ms arbitrary: c)
  case Nil
  then show ?case by simp
next
  case (Cons m ms)
  then show ?case
    by (cases "try_send (msgs c) False m") (auto dest: Cons.IH)
qed

lemma env_step_errs: "errs (env_step ob c) = errs c"
  by (simp add: env_step_def)

lemma retryRateLimit_errs:
  "retryRateLimit c schedule = Returns (e, c') \<Longrightarrow> errs c' = errs c"
proof (induction schedule arbitrary: c)
  case Nil
  then show ?case by simp
next
  case (Cons ob schedule)
  show ?case
  proof (cases "select2 (closed (done_ch (env_step ob c)))
                  (defaultRateLimitRetryDuration \<le> timer_age ob) (pick_first ob)")
    case Case1
    with Cons.prems show ?thesis by (auto simp: Let_def env_step_errs)
  next
    case Case2
    with Cons.prems show ?thesis by (auto simp: Let_def env_step_errs)
  next
    case CaseDefault
    obtain ok r where a: "Add (rl (env_step ob c)) = (ok, r)"
      by (cases "Add (rl (env_step ob c))")
    show ?thesis
    proof (cases ok)
      case True
      with Cons.prems CaseDefault a show ?thesis
        by (auto simp: Let_def env_step_errs)
    next
      case False
      with Cons.prems CaseDefault a
      have "retryRateLimit ((env_step ob c)\<lparr>rl := r\<rparr>) schedule = Returns (e, c')"
        by (simp add: Let_def)
      from Cons.IH [OF this] show ?thesis
        by (simp add: env_step_errs)
    qed
  qed
qed

lemma sendError_unbuffered_errs:
  assumes "cap (errs c) = 0" "sendError c w err = Returns (evs, c')"
  shows "c' = c"
  using assms by (auto simp: sendError_def try_send_def split: if_splits)

lemma process_errs:
  assumes "cap (errs c) = 0" "process newRequest c schedule w msg = Returns (evs, c')"
  shows "errs c' = errs c"
proof (cases "retryRateLimit c schedule")
  case (Returns p)
  obtain e c1 where p: "p = (e, c1)" by (cases p)
  have c1: "errs c1 = errs c"
    using Returns p by (auto dest: retryRateLimit_errs)
  then have cap1: "cap (errs c1) = 0" using assms(1) by simp
  show ?thesis
  proof (cases e)
    case None
    obtain evs1 oe where s: "send newRequest c1 msg = (evs1, oe)"
      by (cases "send newRequest c1 msg")
    show ?thesis
    proof (cases oe)
      case None
      with assms(2) Returns p \<open>e = None\<close> s c1 show ?thesis
        by (simp add: process_def)
    next
      case (Some err)
      with assms(2) Returns p \<open>e = None\<close> s
      obtain evs2 where "sendError c1 w err = Returns (evs2, c')"
        by (auto simp: process_def split: outcome.splits)
      with cap1 have "c' = c1" by (rule sendError_unbuffered_errs)
      with c1 show ?thesis by simp
    qed
  next
    case (Some err)
    with assms(2) Returns p
    have "sendError c1 w (Errorf_dropping_msg msg err) = Returns (evs, c')"
      by (simp add: process_def)
    with cap1 have "c' = c1" by (rule sendError_unbuffered_errs)
    with c1 show ?thesis by simp
  qed
next
  case Panics
  with assms(2) show ?thesis by (simp add: process_def)
next
  case Running
  with assms(2) show ?thesis by (simp add: process_def)
qed

text \<open>
  C10. The error channel \<open>NewClient\<close> makes has capacity zero, whatever the options, and
  as long as a client has that channel: \<open>sendError\<close> returns (the worker never blocks);
  the error is delivered if and only if a consumer is blocked receiving at that moment,
  and is dropped otherwise; and nothing is ever buffered (the client is unchanged, its
  error channel empty).
\<close>

theorem sendError_unbuffered:
  assumes "NewClient stock u opts = Returns c0" and "errs c = errs c0"
  shows "cap (errs c) = 0 \<and> buf (errs c) = [] \<and>
         (\<forall>receiver_waiting err.
            sendError c receiver_waiting err =
              Returns ([if receiver_waiting then ErrorDelivered err else ErrorDropped err], c))"
proof -
  from assms(1) have "errs c0 = new_chan 0"
    unfolding NewClient_def by (drule_tac apply_opts_errs) simp
  with assms(2) show ?thesis
    by (simp add: sendError_def try_send_def new_chan_def)
qed

theorem sendError_unbuffered_witness:
  "NewClient created_201 ''http://server/notification'' [WithMaxBufferSize 1, WithMaxConcurrency 1]
     = Returns small_client \<and>
   cap (errs small_client) = 0 \<and>
   sendError small_client True Errorf_rate_limit_reached =
     Returns ([ErrorDelivered Errorf_rate_limit_reached], small_client) \<and>
   sendError small_client False Errorf_rate_limit_reached =
     Returns ([ErrorDropped Errorf_rate_limit_reached], small_client)"
  using sendError_unbuffered [OF small_client_NewClient, of small_client] small_client_NewClient
  by simp

section \<open>Properties of the admission wait\<close>

lemma env_step_done: "\<not> stop_called ob \<Longrightarrow> done_ch (env_step ob c) = done_ch c"
  by (simp add: env_step_def)

text \<open>Undisturbed and refused, the loop goes round: nothing but the environment moves.\<close>

lemma retryRateLimit_waits:
  assumes "\<not> closed (done_ch c)" "list_all undisturbed waited" "refused c waited"
  shows "retryRateLimit c (waited @ rest) = retryRateLimit (wait_through c waited) rest \<and>
         \<not> closed (done_ch (wait_through c waited))"
  using assms
proof (induction waited arbitrary: c)
  case Nil
  then show ?case by simp
next
  case (Cons ob waited)
  let ?c1 = "env_step ob c"
  from Cons.prems(2) have "undisturbed ob" and rest: "list_all undisturbed waited"
    by simp_all
  then have ob: "\<not> stop_called ob" "timer_age ob < defaultRateLimitRetryDuration"
    by (simp_all add: undisturbed_def)
  from Cons.prems(3) have t: "tokens (rl ?c1) = 0" and r: "refused ?c1 waited"
    by simp_all
  have d: "\<not> closed (done_ch ?c1)"
    using Cons.prems(1) ob(1) by (simp add: env_step_done)
  have a: "Add (rl ?c1) = (False, rl ?c1)"
    using t by (simp add: Add_def)
  have "retryRateLimit c ((ob # waited) @ rest) = retryRateLimit ?c1 (waited @ rest)"
    using ob(2) d by (simp add: a select2_def Let_def)
  then show ?case
    using Cons.IH [OF d rest r] by simp
qed

text \<open>
  C1. The claim is that a worker refused admission without end, and not shut down, leaves
  the wait within the retry window with the error "rate limit reached". The select of
  \<open>retryRateLimit\<close> has a default case and makes its timer anew on every iteration, so the
  timer it polls has only just been started. With \<open>done\<close> open, on every schedule in which
  every \<open>Add\<close> is refused, \<open>Stop\<close> is not called and every select polls its timer before
  the timer is three seconds old: the loop is still running after the last iteration of
  the schedule, however many there are and however long they take together, and so is
  the worker handling the message: it emits no error and does not go back to waiting.
\<close>

theorem retryRateLimit_never_times_out:
  assumes "\<not> closed (done_ch c)" "list_all undisturbed schedule" "refused c schedule"
  shows "retryRateLimit c schedule = Running \<and>
         process newRequest c schedule receiver_waiting msg = Running"
proof -
  have "retryRateLimit c (schedule @ []) = retryRateLimit (wait_through c schedule) []"
    using retryRateLimit_waits [OF assms] by blast
  then have "retryRateLimit c schedule = Running"
    by simp
  then show ?thesis
    by (simp add: process_def)
qed

text \<open>The limiter of the throttled client refuses whatever the number of ticks.\<close>

lemma throttled_refused: "refused throttled_client (replicate n one_second_late)"
proof -
  have e: "env_step one_second_late throttled_client = throttled_client"
    by (simp add: env_step_def one_second_late_def throttled_client_def small_client_def
                  Add_def ratelimiter_New_def refill_tick_def Let_def)
  have t: "tokens (rl throttled_client) = 0"
    by (simp add: throttled_client_def small_client_def Add_def ratelimiter_New_def)
  show ?thesis
    by (induction n) (simp_all add: e t)
qed

theorem retryRateLimit_never_times_out_witness:
  "\<not> closed (done_ch throttled_client) \<and>
   list_all undisturbed (replicate 5 one_second_late) \<and>
   refused throttled_client (replicate 5 one_second_late) \<and>
   sum_list (map timer_age (replicate 5 one_second_late)) = 5 * Second \<and>
   defaultRateLimitRetryDuration < 5 * Second \<and>
   retryRateLimit throttled_client (replicate 5 one_second_late) = Running \<and>
   process (\<lambda>u. None) throttled_client (replicate 5 one_second_late) True ''msg'' = Running"
proof -
  have d: "\<not> closed (done_ch throttled_client)"
    by (simp add: throttled_client_def small_client_def new_chan_def)
  have u: "list_all undisturbed (replicate 5 one_second_late)"
    by (simp add: list_all_iff undisturbed_def one_second_late_def
                  defaultRateLimitRetryDuration_def Second_def)
  have r: "refused throttled_client (replicate 5 one_second_late)"
    by (rule throttled_refused)
  have m: "sum_list (map timer_age (replicate 5 one_second_late)) = 5 * Second"
    by (simp add: one_second_late_def sum_list_replicate)
  have w: "defaultRateLimitRetryDuration < 5 * Second"
    by (simp add: defaultRateLimitRetryDuration_def Second_def)
  from retryRateLimit_never_times_out [OF d u r, of "\<lambda>u. None" True "''msg''"] d u r m w
  show ?thesis by simp
qed

text \<open>
  When \<open>done\<close> is found closed after any number of refusals, the wait returns \<open>nil\<close>, and
  the message is sent.
\<close>

lemma process_done:
  assumes "\<not> closed (done_ch c)" "list_all undisturbed waited" "refused c waited"
      and "stop_called ob" "timer_age ob < defaultRateLimitRetryDuration"
      and "newRequest (url (cfg c)) = None"
      and "httpClient c (url (cfg c)) msg = Inr status" "is2XX status"
  shows "retryRateLimit c (waited @ [ob]) = Returns (None, env_step ob (wait_through c waited))"
    and "process newRequest c (waited @ [ob]) receiver_waiting msg =
           Returns ([Request msg], env_step ob (wait_through c waited))"
proof -
  let ?c0 = "wait_through c waited"
  let ?c1 = "env_step ob ?c0"
  have keep: "cfg (wait_through c' obs) = cfg c' \<and> httpClient (wait_through c' obs) = httpClient c'"
    for c' obs
    by (induction obs arbitrary: c') (simp_all add: env_step_def)
  have c1: "closed (done_ch ?c1)" "cfg ?c1 = cfg c" "httpClient ?c1 = httpClient c"
    using assms(4) keep [of c waited] by (simp_all add: env_step_def)
  have "retryRateLimit c (waited @ [ob]) = retryRateLimit ?c0 [ob]"
    using retryRateLimit_waits [OF assms(1-3)] by blast
  also have "\<dots> = Returns (None, ?c1)"
    using c1(1) assms(5) by (simp add: select2_def Let_def)
  finally show r: "retryRateLimit c (waited @ [ob]) = Returns (None, ?c1)" .
  have s: "send newRequest ?c1 msg = ([Request msg], None)"
    using assms(6-8) c1 by (simp add: send_def classifyStatus_def)
  show "process newRequest c (waited @ [ob]) receiver_waiting msg =
           Returns ([Request msg], ?c1)"
    using r s by (simp add: process_def)
qed

text \<open>
  The loop of the worker in that situation: it receives the message, is refused until
  \<open>done\<close> is closed, makes the request, and leaves at its next select; its trace is the
  one request.
\<close>

lemma worker_loop_done:
  assumes "\<not> closed (done_ch c)" "list_all undisturbed waited"
      and "refused (c\<lparr>msgs := (msgs c)\<lparr>buf := []\<rparr>\<rparr>) waited"
      and "stop_called ob" "timer_age ob < defaultRateLimitRetryDuration"
      and "newRequest (url (cfg c)) = None"
      and "httpClient c (url (cfg c)) msg = Inr status" "is2XX status"
      and "buf (msgs c) = [msg]" "\<not> closed (msgs c)"
      and "\<not> w_stop_called it" "w_schedule it = waited @ [ob]"
  shows "worker_loop newRequest c [it, it'] =
         ([Request msg],
          Returns (env_step ob (wait_through (c\<lparr>msgs := (msgs c)\<lparr>buf := []\<rparr>\<rparr>) waited)))"
proof -
  let ?c0 = "c\<lparr>msgs := (msgs c)\<lparr>buf := []\<rparr>\<rparr>"
  let ?c2 = "env_step ob (wait_through ?c0 waited)"
  have p: "process newRequest ?c0 (waited @ [ob]) (w_receiver_waiting it) msg =
           Returns ([Request msg], ?c2)"
    using assms(1-8) by (intro process_done(2)) simp_all
  have sel: "select2 (buf (msgs c) \<noteq> [] \<or> closed (msgs c)) (closed (done_ch c)) (w_pick_first it)
             = Case1"
    using assms(1,9) by (simp add: select2_def)
  have rc: "try_recv (msgs c) = Received msg ((msgs c)\<lparr>buf := []\<rparr>)"
    using assms(9) by (simp add: try_recv_def)
  have keep: "msgs (wait_through c' obs) = msgs c'" for c' obs
    by (induction obs arbitrary: c') (simp_all add: env_step_def)
  have c2: "closed (done_ch ?c2)" "buf (msgs ?c2) = []" "\<not> closed (msgs ?c2)"
    using assms(4,10) keep [of ?c0 waited] by (simp_all add: env_step_def)
  have last: "worker_loop newRequest ?c2 [it'] = ([], Returns ?c2)"
    using c2 by (simp add: select2_def Let_def)
  have c1: "(if w_stop_called it then c\<lparr>done_ch := (done_ch c)\<lparr>closed := True\<rparr>\<rparr> else c) = c"
    using assms(11) by simp
  have "worker_loop newRequest c (it # [it']) =
        (case worker_loop newRequest ?c2 [it'] of (evs', r) \<Rightarrow> ([Request msg] @ evs', r))"
    unfolding worker_loop.simps(2) [of newRequest c it "[it']"] c1 Let_def sel assms(12)
    by (simp only: select_case.case rc recv_outcome.case p outcome.case prod.case)
  then show ?thesis
    by (simp only: last) simp
qed

text \<open>
  C2. The claim is that a worker waiting for admission when the shutdown signal fires
  drops its message, making no request, and emits a wrapped rate-limit error. In
  \<open>retryRateLimit\<close> the case of \<open>done\<close> returns \<open>nil\<close>, as an admission does. For a worker
  that has been refused through any number of iterations and then finds \<open>done\<close> closed:
  the wait returns \<open>nil\<close>, the limiter having given it no token, and the worker makes the
  request for the message; with a 2xx answer it emits nothing.
\<close>

theorem process_sends_after_shutdown:
  assumes "\<not> closed (done_ch c)" "list_all undisturbed waited" "refused c waited"
      and "stop_called ob" "timer_age ob < defaultRateLimitRetryDuration"
      and "newRequest (url (cfg c)) = None"
      and "httpClient c (url (cfg c)) msg = Inr status" "is2XX status"
  shows "retryRateLimit c (waited @ [ob]) =
           Returns (None, env_step ob (wait_through c waited)) \<and>
         process newRequest c (waited @ [ob]) receiver_waiting msg =
           Returns ([Request msg], env_step ob (wait_through c waited))"
proof -
  have "retryRateLimit c (waited @ [ob]) = Returns (None, env_step ob (wait_through c waited))"
    using assms by (rule process_done(1))
  moreover have "process newRequest c (waited @ [ob]) receiver_waiting msg =
           Returns ([Request msg], env_step ob (wait_through c waited))"
    using assms by (rule process_done(2))
  ultimately show ?thesis
    by simp
qed

theorem process_sends_after_shutdown_witness:
  "\<not> closed (done_ch throttled_client) \<and>
   list_all undisturbed [still_waiting, still_waiting] \<and>
   refused throttled_client [still_waiting, still_waiting] \<and>
   stop_called stop_arrives \<and>
   process (\<lambda>u. None) throttled_client ([still_waiting, still_waiting] @ [stop_arrives]) True ''msg'' =
     Returns ([Request ''msg''], throttled_client\<lparr>done_ch := (new_chan 0)\<lparr>closed := True\<rparr>\<rparr>)"
proof -
  have d: "\<not> closed (done_ch throttled_client)"
    by (simp add: throttled_client_def small_client_def new_chan_def)
  have u: "list_all undisturbed [still_waiting, still_waiting]"
    by (simp add: undisturbed_def still_waiting_def defaultRateLimitRetryDuration_def Second_def)
  have e: "env_step still_waiting throttled_client = throttled_client"
    by (simp add: env_step_def still_waiting_def throttled_client_def small_client_def
                  Add_def ratelimiter_New_def refill_tick_def Let_def)
  have t: "tokens (rl throttled_client) = 0"
    by (simp add: throttled_client_def small_client_def Add_def ratelimiter_New_def)
  have r: "refused throttled_client [still_waiting, still_waiting]"
    by (simp add: e t)
  have s: "stop_called stop_arrives" "timer_age stop_arrives < defaultRateLimitRetryDuration"
    by (simp_all add: stop_arrives_def defaultRateLimitRetryDuration_def Second_def)
  have n: "(\<lambda>u. None) (url (cfg throttled_client)) = None"
    by simp
  have h: "httpClient throttled_client (url (cfg throttled_client)) ''msg'' = Inr 201" "is2XX 201"
    by (simp_all add: throttled_client_def small_client_def created_201_def is2XX_def)
  have w: "wait_through throttled_client [still_waiting, still_waiting] = throttled_client"
    by (simp add: e)
  have f: "env_step stop_arrives throttled_client =
           throttled_client\<lparr>done_ch := (new_chan 0)\<lparr>closed := True\<rparr>\<rparr>"
    by (simp add: env_step_def stop_arrives_def throttled_client_def small_client_def)
  from process_sends_after_shutdown [OF d u r s n h, of True] d u r s(1)
  show ?thesis
    unfolding w f by simp
qed

section \<open>Properties of the accepted messages\<close>

text \<open>
  What a wait does to a client but for the limiter it leaves alone, and what it does to
  the limiter depends on the limiter alone.
\<close>

lemma requests_append: "requests (xs @ ys) = requests xs @ requests ys"
  by (induction xs rule: requests.induct) simp_all

lemma rl_env_step: "rl (env_step ob c) = rl_run (rl_events ob) (rl c)"
  by (simp add: env_step_def Let_def)

lemma env_step_keeps:
  "msgs (env_step ob c) = msgs c" "cfg (env_step ob c) = cfg c"
  "httpClient (env_step ob c) = httpClient c" "wg (env_step ob c) = wg c"
  by (simp_all add: env_step_def Let_def)

lemma wait_through_keeps:
  "msgs (wait_through c obs) = msgs c \<and> errs (wait_through c obs) = errs c \<and>
   cfg (wait_through c obs) = cfg c \<and> httpClient (wait_through c obs) = httpClient c \<and>
   wg (wait_through c obs) = wg c"
  by (induction obs arbitrary: c) (simp_all add: env_step_keeps env_step_errs)

lemma wait_through_done:
  "list_all undisturbed obs \<Longrightarrow> done_ch (wait_through c obs) = done_ch c"
  by (induction obs arbitrary: c) (simp_all add: undisturbed_def env_step_done)

lemma rl_wait_through:
  "rl c = rl c' \<Longrightarrow> rl (wait_through c obs) = rl (wait_through c' obs)"
proof (induction obs arbitrary: c c')
  case Nil
  then show ?case by simp
next
  case (Cons ob obs)
  have "rl (env_step ob c) = rl (env_step ob c')"
    using Cons.prems by (simp add: rl_env_step)
  then have "rl (wait_through (env_step ob c) obs) = rl (wait_through (env_step ob c') obs)"
    by (rule Cons.IH)
  then show ?case by simp
qed

lemma refused_cong: "rl c = rl c' \<Longrightarrow> refused c obs = refused c' obs"
proof (induction obs arbitrary: c c')
  case Nil
  then show ?case by simp
next
  case (Cons ob obs)
  have e: "rl (env_step ob c) = rl (env_step ob c')"
    using Cons.prems by (simp add: rl_env_step)
  then have "refused (env_step ob c) obs = refused (env_step ob c') obs"
    by (rule Cons.IH)
  then show ?case using e by simp
qed

lemma admitted_cong:
  assumes "rl c = rl c'"
  shows "admitted c schedule = admitted c' schedule"
    and "rl (after_admission c schedule) = rl (after_admission c' schedule)"
proof -
  have w: "rl (wait_through c (butlast schedule)) = rl (wait_through c' (butlast schedule))"
    using assms by (rule rl_wait_through)
  then have e: "rl (env_step (last schedule) (wait_through c (butlast schedule))) =
                rl (env_step (last schedule) (wait_through c' (butlast schedule)))"
    by (simp add: rl_env_step)
  show "admitted c schedule = admitted c' schedule"
    using refused_cong [OF assms] e by (simp add: admitted_def)
  show "rl (after_admission c schedule) = rl (after_admission c' schedule)"
    using e by (simp add: after_admission_def Let_def)
qed

lemma admitted_each_cong: "rl c = rl c' \<Longrightarrow> admitted_each c its = admitted_each c' its"
proof (induction its arbitrary: c c')
  case Nil
  then show ?case by simp
next
  case (Cons it its)
  have "admitted_each (after_admission c (w_schedule it)) its =
        admitted_each (after_admission c' (w_schedule it)) its"
    using Cons.prems by (intro Cons.IH admitted_cong(2))
  then show ?case
    using admitted_cong(1) [OF Cons.prems] by simp
qed

lemma after_admission_keeps:
  "msgs (after_admission c s) = msgs c" "errs (after_admission c s) = errs c"
  "cfg (after_admission c s) = cfg c" "httpClient (after_admission c s) = httpClient c"
  "wg (after_admission c s) = wg c"
  by (simp_all add: after_admission_def Let_def env_step_keeps env_step_errs wait_through_keeps)

lemma after_admission_done:
  assumes "admitted c s"
  shows "done_ch (after_admission c s) = done_ch c"
proof -
  from assms have n: "s \<noteq> []" and u: "list_all undisturbed s"
    by (simp_all add: admitted_def)
  from u n have "list_all undisturbed (butlast s)" "undisturbed (last s)"
    by (auto simp: list_all_iff dest: in_set_butlastD)
  then show ?thesis
    by (simp add: after_admission_def Let_def undisturbed_def env_step_done wait_through_done)
qed

text \<open>An admitted wait returns \<open>nil\<close> with the token taken.\<close>

lemma retryRateLimit_admitted:
  assumes "\<not> closed (done_ch c)" "admitted c schedule"
  shows "retryRateLimit c schedule = Returns (None, after_admission c schedule)"
proof -
  let ?waited = "butlast schedule" and ?ob = "last schedule"
  let ?c0 = "wait_through c ?waited"
  let ?c1 = "env_step ?ob ?c0"
  from assms(2) have n: "schedule \<noteq> []" and u: "list_all undisturbed schedule"
    and r: "refused c ?waited" and t: "tokens (rl ?c1) \<noteq> 0"
    by (simp_all add: admitted_def)
  from u n have uw: "list_all undisturbed ?waited" and uo: "undisturbed ?ob"
    by (auto simp: list_all_iff dest: in_set_butlastD)
  have s: "?waited @ [?ob] = schedule"
    using n by simp
  have w: "retryRateLimit c (?waited @ [?ob]) = retryRateLimit ?c0 [?ob]"
    and d0: "\<not> closed (done_ch ?c0)"
    using retryRateLimit_waits [OF assms(1) uw r] by blast+
  have d1: "\<not> closed (done_ch ?c1)"
    using d0 uo by (simp add: undisturbed_def env_step_done)
  have y: "\<not> defaultRateLimitRetryDuration \<le> timer_age ?ob"
    using uo by (simp add: undisturbed_def)
  obtain ok r' where a: "Add (rl ?c1) = (ok, r')"
    by (cases "Add (rl ?c1)")
  with t have ok: "ok" by (auto simp: Add_result split: if_splits)
  have "retryRateLimit ?c0 [?ob] = Returns (None, ?c1\<lparr>rl := r'\<rparr>)"
    using d1 y a ok by (simp add: select2_def Let_def)
  also have "?c1\<lparr>rl := r'\<rparr> = after_admission c schedule"
    using a by (simp add: after_admission_def Let_def)
  finally have f: "retryRateLimit ?c0 [?ob] = Returns (None, after_admission c schedule)" .
  have "retryRateLimit c schedule = retryRateLimit ?c0 [?ob]"
    using w by (simp only: s)
  with f show ?thesis
    by (rule_tac trans)
qed

lemma sendError_open:
  assumes "\<not> closed (errs c)"
  shows "\<exists>evs c2. sendError c w err = Returns (evs, c2) \<and> requests evs = [] \<and>
           rl c2 = rl c \<and> msgs c2 = msgs c \<and> done_ch c2 = done_ch c \<and> cfg c2 = cfg c \<and>
           \<not> closed (errs c2)"
  using assms by (simp add: sendError_def try_send_def)

text \<open>
  A worker whose wait is admitted makes the request for its message, whatever the answer:
  an error goes to \<open>sendError\<close>, which returns as long as the error channel is open.
\<close>

lemma process_admitted:
  assumes "\<not> closed (done_ch c)" "admitted c schedule"
      and "newRequest (url (cfg c)) = None" "\<not> closed (errs c)"
  shows "\<exists>evs c2. process newRequest c schedule w msg = Returns (evs, c2) \<and>
           requests evs = [msg] \<and> rl c2 = rl (after_admission c schedule) \<and>
           msgs c2 = msgs c \<and> done_ch c2 = done_ch c \<and> cfg c2 = cfg c \<and>
           \<not> closed (errs c2)"
proof -
  let ?c1 = "after_admission c schedule"
  have r: "retryRateLimit c schedule = Returns (None, ?c1)"
    using assms(1,2) by (rule retryRateLimit_admitted)
  have k: "msgs ?c1 = msgs c" "cfg ?c1 = cfg c" "errs ?c1 = errs c" "done_ch ?c1 = done_ch c"
    using assms(2) by (simp_all add: after_admission_keeps after_admission_done)
  obtain evs oe where s: "send newRequest ?c1 msg = (evs, oe)"
    by (cases "send newRequest ?c1 msg")
  have e: "evs = [Request msg]"
    using s assms(3) k by (auto simp: send_def split: sum.splits)
  show ?thesis
  proof (cases oe)
    case None
    then have "process newRequest c schedule w msg = Returns ([Request msg], ?c1)"
      using r s e by (simp add: process_def)
    then show ?thesis
      using k assms(4) by simp
  next
    case (Some err)
    from sendError_open [of ?c1 w err] assms(4) k
    obtain evs' c2 where se: "sendError ?c1 w err = Returns (evs', c2)" "requests evs' = []"
        "rl c2 = rl ?c1" "msgs c2 = msgs ?c1" "done_ch c2 = done_ch ?c1" "cfg c2 = cfg ?c1"
        "\<not> closed (errs c2)"
      by auto
    have "process newRequest c schedule w msg = Returns ([Request msg] @ evs', c2)"
      using r s e Some se(1) by (simp add: process_def)
    then show ?thesis
      using se k by (simp add: requests_append)
  qed
qed

text \<open>
  A worker that is not shut down and is admitted for each message drains the queue and
  makes one request per message, in the order of the queue, however long each wait.
\<close>

lemma worker_loop_delivers:
  assumes "\<not> closed (done_ch c)" "\<not> closed (msgs c)" "\<not> closed (errs c)"
      and "newRequest (url (cfg c)) = None"
      and "length its = length (buf (msgs c))"
      and "admitted_each c its"
  shows "requests (fst (worker_loop newRequest c its)) = buf (msgs c)"
  using assms
proof (induction its arbitrary: c)
  case Nil
  then show ?case by simp
next
  case (Cons it its)
  from Cons.prems(5) obtain m ms where b: "buf (msgs c) = m # ms" and l: "length its = length ms"
    by (cases "buf (msgs c)") auto
  from Cons.prems(6) have ns: "\<not> w_stop_called it" and ad: "admitted c (w_schedule it)"
    and ae: "admitted_each (after_admission c (w_schedule it)) its"
    by simp_all
  let ?c0 = "c\<lparr>msgs := (msgs c)\<lparr>buf := ms\<rparr>\<rparr>"
  have ad0: "admitted ?c0 (w_schedule it)"
    using ad admitted_cong(1) [of ?c0 c "w_schedule it"] by simp
  from process_admitted [of ?c0 "w_schedule it" newRequest "w_receiver_waiting it" m]
    Cons.prems(1,3,4) ad0
  obtain evs c2 where p: "process newRequest ?c0 (w_schedule it) (w_receiver_waiting it) m
                            = Returns (evs, c2)"
      and q: "requests evs = [m]" and r2: "rl c2 = rl (after_admission ?c0 (w_schedule it))"
      and k: "msgs c2 = msgs ?c0" "done_ch c2 = done_ch ?c0" "cfg c2 = cfg ?c0"
             "\<not> closed (errs c2)"
    by auto
  have "rl c2 = rl (after_admission c (w_schedule it))"
    using r2 admitted_cong(2) [of ?c0 c "w_schedule it"] by simp
  then have ae2: "admitted_each c2 its"
    using ae admitted_each_cong by blast
  have ih: "requests (fst (worker_loop newRequest c2 its)) = buf (msgs c2)"
    using Cons.prems(1,2,4) k l ae2 by (intro Cons.IH) simp_all
  have c1: "(if w_stop_called it then c\<lparr>done_ch := (done_ch c)\<lparr>closed := True\<rparr>\<rparr> else c) = c"
    using ns by simp
  have sel: "select2 (buf (msgs c) \<noteq> [] \<or> closed (msgs c)) (closed (done_ch c)) (w_pick_first it)
             = Case1"
    using b Cons.prems(1) by (simp add: select2_def)
  have rc: "try_recv (msgs c) = Received m ((msgs c)\<lparr>buf := ms\<rparr>)"
    using b by (simp add: try_recv_def)
  have step: "worker_loop newRequest c (it # its) =
        (case worker_loop newRequest c2 its of (evs', r) \<Rightarrow> (evs @ evs', r))"
    unfolding worker_loop.simps(2) [of newRequest c it its] c1 Let_def sel
    by (simp only: select_case.case rc recv_outcome.case p outcome.case prod.case)
  show ?case
    using step ih q k b by (simp add: case_prod_beta requests_append)
qed

lemma worker_trace: "fst (worker newRequest c its) = fst (worker_loop newRequest (c\<lparr>wg := wg c + 1\<rparr>) its)"
  by (simp add: worker_def split: prod.splits outcome.splits)

lemma worker_delivers:
  assumes "\<not> closed (done_ch c)" "\<not> closed (msgs c)" "\<not> closed (errs c)"
      and "newRequest (url (cfg c)) = None"
      and "length its = length (buf (msgs c))"
      and "admitted_each c its"
  shows "requests (fst (worker newRequest c its)) = buf (msgs c)"
proof -
  let ?c = "c\<lparr>wg := wg c + 1\<rparr>"
  have "admitted_each ?c its"
    using assms(6) admitted_each_cong [of ?c c its] by simp
  then have "requests (fst (worker_loop newRequest ?c its)) = buf (msgs ?c)"
    using assms(1-5) by (intro worker_loop_delivers) simp_all
  then show ?thesis
    by (simp add: worker_trace)
qed

text \<open>
  A limiter that refills one token per tick, as the default one does, and whose \<open>max\<close> is
  neither zero nor the largest number, has a token after each tick: a worker that meets
  one tick per message is admitted for each, whatever the limiter held before. This is
  so in every state of the default limiter.
\<close>

lemma refill_tick_gives_token:
  assumes "refillTokens r = 1" "max_tokens r \<noteq> 0" "max_tokens r \<noteq> - 1"
      and "tokens r \<le> max_tokens r"
  shows "tokens (refill_tick r) \<noteq> 0"
proof -
  have "tokens r \<noteq> - 1"
  proof
    assume "tokens r = - 1"
    with assms(4) have "max_tokens r = - 1"
      by (simp add: word_order.extremum_unique)
    with assms(3) show False by simp
  qed
  then have "tokens r + 1 \<noteq> 0"
    by (metis add_eq_0_iff2 add.commute)
  then show ?thesis
    using assms(1,2) by (simp add: refill_tick_def Let_def)
qed

lemma admitted_after_a_tick:
  assumes "refillTokens (rl c) = 1" "max_tokens (rl c) \<noteq> 0" "max_tokens (rl c) \<noteq> - 1"
      and "tokens (rl c) \<le> max_tokens (rl c)"
  shows "admitted_each c (replicate n after_a_tick)"
  using assms
proof (induction n arbitrary: c)
  case 0
  then show ?case by simp
next
  case (Suc n)
  let ?r = "refill_tick (rl c)"
  let ?c1 = "after_admission c [still_waiting]"
  have e: "rl (env_step still_waiting c) = ?r"
    by (simp add: rl_env_step still_waiting_def)
  have t: "tokens ?r \<noteq> 0"
    using Suc.prems by (rule refill_tick_gives_token)
  have u: "list_all undisturbed [still_waiting]"
    by (simp add: undisturbed_def still_waiting_def defaultRateLimitRetryDuration_def Second_def)
  have a: "admitted c [still_waiting]"
    using u t e by (simp add: admitted_def)
  have r1: "rl ?c1 = snd (Add ?r)"
    using e by (simp add: after_admission_def Let_def)
  have f: "refillTokens (rl ?c1) = 1" "max_tokens (rl ?c1) \<noteq> 0" "max_tokens (rl ?c1) \<noteq> - 1"
    using Suc.prems(1-3) by (simp_all add: r1 Add_def refill_tick_def Let_def)
  have le: "tokens (rl ?c1) \<le> max_tokens (rl ?c1)"
    unfolding r1 by (rule Add_le_max) (rule refill_tick_le_max)
  have "admitted_each ?c1 (replicate n after_a_tick)"
    using f le by (rule Suc.IH)
  then show ?case
    using a by (simp add: after_a_tick_def)
qed

lemma rl_run_fields:
  "max_tokens (rl_run es r) = max_tokens r \<and> refillTokens (rl_run es r) = refillTokens r"
  by (induction es arbitrary: r) (simp_all add: rl_step_fields)

lemma default_limiter_admits:
  assumes "rl c = rl_run es (ratelimiter_New defaultRateLimit 1)"
  shows "admitted_each c (replicate n after_a_tick)"
proof (rule admitted_after_a_tick)
  show "refillTokens (rl c) = 1" "max_tokens (rl c) \<noteq> 0" "max_tokens (rl c) \<noteq> - 1"
    using assms by (simp_all add: rl_run_fields ratelimiter_New_def defaultRateLimit_def)
  show "tokens (rl c) \<le> max_tokens (rl c)"
    using assms by (simp add: rl_run_New_le_max)
qed

text \<open>
  C9. \<open>Notify\<close> is not atomic over its messages: when a call on an open queue fails, it
  failed at the message \<open>i\<close> for which the queue had no place left, \<open>i\<close> the number of
  free places; the client is as before but for the queue, where the messages before \<open>i\<close>
  stand behind what was there already: the error takes none of them back. They are there
  for the workers: receiving from the queue yields them, in order, also once \<open>Stop\<close> has
  closed the queue; and a worker that is not shut down and whose waits are each admitted
  in the end, whatever the limiter holds at the start and however long each wait, makes
  the request for each of them, in order, whatever the answers. With the default limiter,
  in any state it can be in, it is enough that one tick comes per message.
\<close>

theorem Notify_keeps_accepted_prefix:
  assumes "\<not> closed (msgs c)" and "Notify c ms = Returns (Some e, c')"
  shows "\<exists>i<length ms.
           i = cap (msgs c) - length (buf (msgs c)) \<and>
           e = newEnqueueError (Errorf_failed_to_enqueue (ms ! i)) \<and>
           c' = c\<lparr>msgs := (msgs c)\<lparr>buf := buf (msgs c) @ take i ms\<rparr>\<rparr> \<and>
           buf (msgs c') = buf (msgs c) @ take i ms \<and>
           fst (drain (length (buf (msgs c'))) (msgs c')) = buf (msgs c) @ take i ms \<and>
           fst (drain (length (buf (msgs c'))) ((msgs c')\<lparr>closed := True\<rparr>)) =
             buf (msgs c) @ take i ms \<and>
           (\<forall>its. \<not> closed (done_ch c') \<and> \<not> closed (errs c') \<and>
                  newRequest (url (cfg c')) = None \<and>
                  length its = length (buf (msgs c')) \<and> admitted_each c' its \<longrightarrow>
                  requests (fst (worker newRequest c' its)) = buf (msgs c) @ take i ms) \<and>
           (\<forall>es. rl c' = rl_run es (ratelimiter_New defaultRateLimit 1) \<and>
                 \<not> closed (done_ch c') \<and> \<not> closed (errs c') \<and>
                 newRequest (url (cfg c')) = None \<longrightarrow>
                 requests (fst (worker newRequest c'
                                  (replicate (length (buf (msgs c'))) after_a_tick))) =
                   buf (msgs c) @ take i ms)"
proof -
  let ?free = "cap (msgs c) - length (buf (msgs c))"
  from assms(2) have lt: "?free < length ms"
    and e: "e = newEnqueueError (Errorf_failed_to_enqueue (ms ! ?free))"
    and c': "c' = c\<lparr>msgs := (msgs c)\<lparr>buf := buf (msgs c) @ take ?free ms\<rparr>\<rparr>"
    by (auto simp: Notify_open [OF assms(1)] Let_def split: if_splits)
  have b: "buf (msgs c') = buf (msgs c) @ take ?free ms"
    using c' by simp
  have o: "\<not> closed (msgs c')"
    using c' assms(1) by simp
  have "fst (drain (length (buf (msgs c'))) (msgs c')) = buf (msgs c')"
    by (simp add: drain_buf)
  then have d1: "fst (drain (length (buf (msgs c'))) (msgs c')) = buf (msgs c) @ take ?free ms"
    by (simp only: b)
  have "fst (drain (length (buf (msgs c'))) ((msgs c')\<lparr>closed := True\<rparr>)) = buf (msgs c')"
    using drain_buf [of "(msgs c')\<lparr>closed := True\<rparr>"] by simp
  then have d2: "fst (drain (length (buf (msgs c'))) ((msgs c')\<lparr>closed := True\<rparr>)) =
            buf (msgs c) @ take ?free ms"
    by (simp only: b)
  have w: "\<forall>its. \<not> closed (done_ch c') \<and> \<not> closed (errs c') \<and>
                  newRequest (url (cfg c')) = None \<and>
                  length its = length (buf (msgs c')) \<and> admitted_each c' its \<longrightarrow>
                  requests (fst (worker newRequest c' its)) = buf (msgs c) @ take ?free ms"
  proof (intro allI impI)
    fix its
    assume h: "\<not> closed (done_ch c') \<and> \<not> closed (errs c') \<and>
                  newRequest (url (cfg c')) = None \<and>
                  length its = length (buf (msgs c')) \<and> admitted_each c' its"
    then have "requests (fst (worker newRequest c' its)) = buf (msgs c')"
      using o by (intro worker_delivers) simp_all
    then show "requests (fst (worker newRequest c' its)) = buf (msgs c) @ take ?free ms"
      by (simp only: b)
  qed
  have v: "\<forall>es. rl c' = rl_run es (ratelimiter_New defaultRateLimit 1) \<and>
                 \<not> closed (done_ch c') \<and> \<not> closed (errs c') \<and>
                 newRequest (url (cfg c')) = None \<longrightarrow>
                 requests (fst (worker newRequest c'
                                  (replicate (length (buf (msgs c'))) after_a_tick))) =
                   buf (msgs c) @ take ?free ms"
  proof (intro allI impI)
    fix es
    assume h: "rl c' = rl_run es (ratelimiter_New defaultRateLimit 1) \<and>
                 \<not> closed (done_ch c') \<and> \<not> closed (errs c') \<and>
                 newRequest (url (cfg c')) = None"
    then have "admitted_each c' (replicate (length (buf (msgs c'))) after_a_tick)"
      by (intro default_limiter_admits [of c' es]) simp
    then have "requests (fst (worker newRequest c'
                                  (replicate (length (buf (msgs c'))) after_a_tick))) =
               buf (msgs c')"
      using h o by (intro worker_delivers) simp_all
    then show "requests (fst (worker newRequest c'
                                  (replicate (length (buf (msgs c'))) after_a_tick))) =
               buf (msgs c) @ take ?free ms"
      by (simp only: b)
  qed
  from lt e c' b d1 d2 w v show ?thesis
    by blast
qed

text \<open>The limiter of the dry client admits a wait once a tick has come, and is dry again.\<close>

lemma dry_client_waits:
  "admitted dry_client [no_tick, still_waiting]"
  "after_admission dry_client [no_tick, still_waiting] = dry_client"
proof -
  have r: "rl dry_client =
           \<lparr>tokens = 0, max_tokens = 1, refillTokens = 1, refillEvery = Some Second,
            stop = new_chan 0\<rparr>"
    by (simp add: dry_client_def small_client_def Add_def ratelimiter_New_def)
  have e0: "env_step no_tick dry_client = dry_client"
    by (simp add: env_step_def no_tick_def)
  have t: "refill_tick (rl dry_client) = (rl dry_client)\<lparr>tokens := 1\<rparr>"
    by (simp add: r refill_tick_def Let_def)
  have e1: "env_step still_waiting dry_client = dry_client\<lparr>rl := (rl dry_client)\<lparr>tokens := 1\<rparr>\<rparr>"
    by (simp add: env_step_def still_waiting_def t)
  have u: "list_all undisturbed [no_tick, still_waiting]"
    by (simp add: undisturbed_def no_tick_def still_waiting_def
                  defaultRateLimitRetryDuration_def Second_def)
  show "admitted dry_client [no_tick, still_waiting]"
    using u by (simp add: admitted_def e0 e1 r)
  have "snd (Add ((rl dry_client)\<lparr>tokens := 1\<rparr>)) = rl dry_client"
    by (simp add: Add_def r)
  then show "after_admission dry_client [no_tick, still_waiting] = dry_client"
    by (simp add: after_admission_def Let_def e0 e1)
qed

theorem Notify_keeps_accepted_prefix_witness:
  "\<not> closed (msgs dry_client) \<and> tokens (rl dry_client) = 0 \<and>
   (\<exists>e c'. Notify dry_client [''a'', ''b'', ''c''] = Returns (Some e, c') \<and>
          e = newEnqueueError (Errorf_failed_to_enqueue ''c'') \<and>
          buf (msgs c') = [''a'', ''b''] \<and>
          fst (drain (length (buf (msgs c'))) (msgs c')) = [''a'', ''b''] \<and>
          \<not> closed (done_ch c') \<and> \<not> closed (errs c') \<and>
          length [waits_for_tick, waits_for_tick] = length (buf (msgs c')) \<and>
          admitted_each c' [waits_for_tick, waits_for_tick] \<and>
          requests (fst (worker (\<lambda>u. None) c' [waits_for_tick, waits_for_tick])) = [''a'', ''b'']) \<and>
   (\<exists>e c'. Notify small_client [''hello'', ''hello2''] = Returns (Some e, c') \<and>
          rl c' = rl_run [] (ratelimiter_New defaultRateLimit 1) \<and>
          requests (fst (worker (\<lambda>u. None) c' (replicate (length (buf (msgs c'))) after_a_tick))) =
            [''hello''])"
proof -
  have o: "\<not> closed (msgs dry_client)" and t: "tokens (rl dry_client) = 0"
    by (simp_all add: dry_client_def small_client_def new_chan_def Add_def ratelimiter_New_def)
  let ?c' = "dry_client\<lparr>msgs := (msgs dry_client)\<lparr>buf := [''a'', ''b'']\<rparr>\<rparr>"
  let ?e = "newEnqueueError (Errorf_failed_to_enqueue ''c'')"
  have ec: "Notify dry_client [''a'', ''b'', ''c''] = Returns (Some ?e, ?c')"
    by (simp add: dry_client_def small_client_def new_chan_def try_send_def)
  have bc: "buf (msgs ?c') = [''a'', ''b'']"
    by simp
  have op: "\<not> closed (done_ch ?c')" "\<not> closed (errs ?c')"
    by (simp_all add: dry_client_def small_client_def new_chan_def)
  have a1: "admitted ?c' [no_tick, still_waiting]"
    using dry_client_waits(1) admitted_cong(1) [of ?c' dry_client] by simp
  have a2: "rl (after_admission ?c' [no_tick, still_waiting]) = rl dry_client"
    using dry_client_waits(2) admitted_cong(2) [of ?c' dry_client "[no_tick, still_waiting]"]
    by simp
  have a3: "admitted_each (after_admission ?c' [no_tick, still_waiting]) [waits_for_tick]"
    using admitted_each_cong [OF a2, of "[waits_for_tick]"] dry_client_waits(1)
    by (simp add: waits_for_tick_def)
  have ae: "admitted_each ?c' [waits_for_tick, waits_for_tick]"
    using a1 a3 by (simp add: waits_for_tick_def)
  have h: "\<not> closed (done_ch ?c') \<and> \<not> closed (errs ?c') \<and>
           (\<lambda>u. None) (url (cfg ?c')) = None \<and>
           length [waits_for_tick, waits_for_tick] = length (buf (msgs ?c')) \<and>
           admitted_each ?c' [waits_for_tick, waits_for_tick]"
    using op ae by simp
  from Notify_keeps_accepted_prefix [OF o ec, of "\<lambda>u. None"]
  obtain i where i: "buf (msgs ?c') = buf (msgs dry_client) @ take i [''a'', ''b'', ''c'']"
     "fst (drain (length (buf (msgs ?c'))) (msgs ?c')) =
        buf (msgs dry_client) @ take i [''a'', ''b'', ''c'']"
     "\<forall>its. \<not> closed (done_ch ?c') \<and> \<not> closed (errs ?c') \<and>
            (\<lambda>u. None) (url (cfg ?c')) = None \<and>
            length its = length (buf (msgs ?c')) \<and> admitted_each ?c' its \<longrightarrow>
            requests (fst (worker (\<lambda>u. None) ?c' its)) =
              buf (msgs dry_client) @ take i [''a'', ''b'', ''c'']"
    by blast
  from i(1) have p: "buf (msgs dry_client) @ take i [''a'', ''b'', ''c''] = [''a'', ''b'']"
    by simp
  have d: "fst (drain (length (buf (msgs ?c'))) (msgs ?c')) = [''a'', ''b'']"
    using i(2) p by simp
  have w: "requests (fst (worker (\<lambda>u. None) ?c' [waits_for_tick, waits_for_tick])) = [''a'', ''b'']"
    using i(3) h p by (simp del: admitted_each.simps)
  have sm: "\<not> closed (msgs small_client)"
    by (simp add: small_client_def new_chan_def)
  let ?s' = "small_client\<lparr>msgs := (msgs small_client)\<lparr>buf := [''hello'']\<rparr>\<rparr>"
  let ?se = "newEnqueueError (Errorf_failed_to_enqueue ''hello2'')"
  have sec: "Notify small_client [''hello'', ''hello2''] = Returns (Some ?se, ?s')"
    by (simp add: small_client_def new_chan_def try_send_def)
  have sh: "rl ?s' = rl_run [] (ratelimiter_New defaultRateLimit 1) \<and>
            \<not> closed (done_ch ?s') \<and> \<not> closed (errs ?s') \<and>
            (\<lambda>u. None) (url (cfg ?s')) = None"
    by (simp add: small_client_def new_chan_def)
  from Notify_keeps_accepted_prefix [OF sm sec, of "\<lambda>u. None"]
  obtain j where j: "buf (msgs ?s') = buf (msgs small_client) @ take j [''hello'', ''hello2'']"
     "\<forall>es. rl ?s' = rl_run es (ratelimiter_New defaultRateLimit 1) \<and>
            \<not> closed (done_ch ?s') \<and> \<not> closed (errs ?s') \<and>
            (\<lambda>u. None) (url (cfg ?s')) = None \<longrightarrow>
            requests (fst (worker (\<lambda>u. None) ?s'
                             (replicate (length (buf (msgs ?s'))) after_a_tick))) =
              buf (msgs small_client) @ take j [''hello'', ''hello2'']"
    by blast
  from j(1) have jp: "buf (msgs small_client) @ take j [''hello'', ''hello2''] = [''hello'']"
    by simp
  from j(2) sh
  have "requests (fst (worker (\<lambda>u. None) ?s'
                             (replicate (length (buf (msgs ?s'))) after_a_tick))) =
        buf (msgs small_client) @ take j [''hello'', ''hello2'']"
    by blast
  then have sw: "requests (fst (worker (\<lambda>u. None) ?s'
                             (replicate (length (buf (msgs ?s'))) after_a_tick))) = [''hello'']"
    by (simp only: jp)
  have first: "\<exists>e c'. Notify dry_client [''a'', ''b'', ''c''] = Returns (Some e, c') \<and>
          e = newEnqueueError (Errorf_failed_to_enqueue ''c'') \<and>
          buf (msgs c') = [''a'', ''b''] \<and>
          fst (drain (length (buf (msgs c'))) (msgs c')) = [''a'', ''b''] \<and>
          \<not> closed (done_ch c') \<and> \<not> closed (errs c') \<and>
          length [waits_for_tick, waits_for_tick] = length (buf (msgs c')) \<and>
          admitted_each c' [waits_for_tick, waits_for_tick] \<and>
          requests (fst (worker (\<lambda>u. None) c' [waits_for_tick, waits_for_tick])) = [''a'', ''b'']"
    using ec bc d op ae w by (intro exI [of _ ?e] exI [of _ ?c']) simp_all
  have second: "\<exists>e c'. Notify small_client [''hello'', ''hello2''] = Returns (Some e, c') \<and>
          rl c' = rl_run [] (ratelimiter_New defaultRateLimit 1) \<and>
          requests (fst (worker (\<lambda>u. None) c' (replicate (length (buf (msgs c'))) after_a_tick))) =
            [''hello'']"
    using sec sh sw by (intro exI [of _ ?se] exI [of _ ?s']) (simp_all del: replicate.simps)
  from o t first second show ?thesis
    by blast
qed

section \<open>Properties of Stop\<close>

lemma waitWithTimeout_cfg:
  "cfg c1 = cfg c \<Longrightarrow> wg c1 = wg c \<Longrightarrow> waitWithTimeout c1 env = waitWithTimeout c env"
  by (simp add: waitWithTimeout_def)

lemma Stop_open:
  assumes "\<not> closed (stop (rl c))" "\<not> closed (done_ch c)"
          "\<not> closed (errs c)" "\<not> closed (msgs c)"
  shows "Stop c env =
         Returns (fst (waitWithTimeout c env), stopped c, snd (waitWithTimeout c env))"
proof -
  let ?c1 = "c\<lparr>rl := (rl c)\<lparr>stop := (stop (rl c))\<lparr>closed := True\<rparr>\<rparr>,
               done_ch := (done_ch c)\<lparr>closed := True\<rparr>\<rparr>"
  have w: "waitWithTimeout ?c1 env = waitWithTimeout c env"
    by (rule waitWithTimeout_cfg) simp_all
  show ?thesis
    using assms
    by (simp add: Stop_def ratelimiter_Stop_def close_chan_def w stopped_def
                  case_prod_beta Let_def)
qed

lemma Stop_again: "Stop (stopped c) env = Panics"
  by (simp add: Stop_def ratelimiter_Stop_def close_chan_def stopped_def)

text \<open>
  With a worker counted, the wait lasts until the workers counted are done or the grace
  duration is over, whichever is first, and the error tells which.
\<close>

lemma waitWithTimeout_counted:
  assumes "wg c \<noteq> 0"
  shows "waitWithTimeout c env =
     (let fires = max 0 (shutDownGraceDuration (cfg c)) in
      case wg_wait env of
        None \<Rightarrow> (Some Errorf_grace_period_exceeded, fires)
      | Some w \<Rightarrow>
          (if w < fires then (None, w)
           else if fires < w then (Some Errorf_grace_period_exceeded, fires)
           else if pick_done env then (None, w) else (Some Errorf_grace_period_exceeded, fires)))"
  using assms
  by (auto simp: waitWithTimeout_def Let_def select2_def split: option.splits)

text \<open>With no worker counted, and a grace duration above zero, it returns \<open>nil\<close> at once.\<close>

lemma waitWithTimeout_uncounted:
  assumes "wg c = 0" "0 < shutDownGraceDuration (cfg c)"
  shows "waitWithTimeout c env = (None, 0)"
  using assms by (simp add: waitWithTimeout_def Let_def)

text \<open>Neither the options nor \<open>Notify\<close> nor \<open>Start\<close> count a worker.\<close>

lemma apply_opt_keeps:
  assumes "apply_opt opt c = Returns c'"
  shows "wg c' = wg c" "done_ch c' = done_ch c"
    and "buf (msgs c) = [] \<and> \<not> closed (msgs c) \<Longrightarrow> buf (msgs c') = [] \<and> \<not> closed (msgs c')"
  using assms
  by (cases opt; auto simp: make_chan_def new_chan_def split: option.splits if_splits)+

lemma apply_opts_keeps:
  assumes "apply_opts opts c = Returns c'"
  shows "wg c' = wg c \<and> done_ch c' = done_ch c \<and>
         (buf (msgs c) = [] \<and> \<not> closed (msgs c) \<longrightarrow> buf (msgs c') = [] \<and> \<not> closed (msgs c'))"
  using assms
proof (induction opts arbitrary: c)
  case Nil
  then show ?case by simp
next
  case (Cons opt opts)
  from Cons.prems obtain c1 where 1: "apply_opt opt c = Returns c1"
    and 2: "apply_opts opts c1 = Returns c'"
    by (auto split: outcome.splits)
  show ?case
    using Cons.IH [OF 2] apply_opt_keeps [OF 1] by simp
qed

lemma NewClient_fresh:
  assumes "NewClient stock u opts = Returns c"
  shows "wg c = 0" "\<not> closed (done_ch c)" "\<not> closed (errs c)"
        "buf (msgs c) = []" "\<not> closed (msgs c)"
proof -
  let ?c0 = "\<lparr>httpClient = stock,
        rl = ratelimiter_New defaultRateLimit 1,
        cfg = \<lparr>url = u,
               maxBufferSize = defaultBufferSize,
               shutDownGraceDuration = defaultShutdownGraceDuration,
               maxConcurrency = defaultConcurrency\<rparr>,
        msgs = new_chan (nat defaultBufferSize),
        errs = new_chan 0,
        done_ch = new_chan 0,
        wg = 0\<rparr>"
  from assms have a: "apply_opts opts ?c0 = Returns c"
    by (simp add: NewClient_def)
  from apply_opts_keeps [OF a] apply_opts_errs [OF a]
  show "wg c = 0" "\<not> closed (done_ch c)" "\<not> closed (errs c)"
        "buf (msgs c) = []" "\<not> closed (msgs c)"
    by (simp_all add: new_chan_def)
qed

text \<open>
  A worker that starts on a client \<open>Stop\<close> has left, with a message still in the closed
  queue, and whose select takes the queue: its wait returns \<open>nil\<close> at once, \<open>done\<close> being
  closed, and it makes the request. With a 2xx answer it then leaves; with any other it
  sends the error on the closed error channel, which panics.
\<close>

lemma worker_after_Stop:
  assumes "closed (done_ch d)" "closed (msgs d)" "closed (errs d)" "buf (msgs d) = [msg]"
      and "newRequest (url (cfg d)) = None"
      and "httpClient d (url (cfg d)) msg = Inr status"
      and "w_pick_first it" "w_schedule it = ob # obs"
      and "timer_age ob < defaultRateLimitRetryDuration"
  shows "is2XX status \<Longrightarrow> fst (worker newRequest d [it, it']) = [Request msg]"
    and "\<not> is2XX status \<Longrightarrow> snd (worker newRequest d [it, it']) = Panics"
proof -
  let ?d1 = "(if w_stop_called it then (d\<lparr>wg := wg d + 1\<rparr>)\<lparr>done_ch := (done_ch (d\<lparr>wg := wg d + 1\<rparr>))\<lparr>closed := True\<rparr>\<rparr>
             else d\<lparr>wg := wg d + 1\<rparr>)"
  let ?d2 = "?d1\<lparr>msgs := (msgs ?d1)\<lparr>buf := []\<rparr>\<rparr>"
  let ?d3 = "env_step ob ?d2"
  have f1: "closed (done_ch ?d1)" "closed (msgs ?d1)" "buf (msgs ?d1) = [msg]"
           "closed (errs ?d1)" "cfg ?d1 = cfg d" "httpClient ?d1 = httpClient d"
    using assms(1-4) by simp_all
  have f3: "closed (done_ch ?d3)" "closed (msgs ?d3)" "buf (msgs ?d3) = []"
           "closed (errs ?d3)" "cfg ?d3 = cfg d" "httpClient ?d3 = httpClient d"
    using f1 by (simp_all add: env_step_def Let_def)
  have sel: "select2 (buf (msgs ?d1) \<noteq> [] \<or> closed (msgs ?d1)) (closed (done_ch ?d1))
               (w_pick_first it) = Case1"
    using f1 assms(7) by (simp add: select2_def)
  have rc: "try_recv (msgs ?d1) = Received msg ((msgs ?d1)\<lparr>buf := []\<rparr>)"
    using f1 by (simp add: try_recv_def)
  have r: "retryRateLimit ?d2 (ob # obs) = Returns (None, ?d3)"
    using f3(1) assms(9) by (simp add: select2_def Let_def)
  have s: "send newRequest ?d3 msg = ([Request msg], classifyStatus status msg)"
    using assms(5,6) f3 by (simp add: send_def)
  have last: "worker_loop newRequest ?d3 [it'] = ([], Returns
                (if w_stop_called it' then ?d3\<lparr>done_ch := (done_ch ?d3)\<lparr>closed := True\<rparr>\<rparr> else ?d3))"
    using f3 by (simp add: select2_def Let_def try_recv_def)
  {
    assume ok: "is2XX status"
    have p: "process newRequest ?d2 (w_schedule it) (w_receiver_waiting it) msg
             = Returns ([Request msg], ?d3)"
      unfolding process_def assms(8) r using s ok by (simp add: classifyStatus_def)
    have "worker_loop newRequest (d\<lparr>wg := wg d + 1\<rparr>) (it # [it']) =
          (case worker_loop newRequest ?d3 [it'] of (evs', r) \<Rightarrow> ([Request msg] @ evs', r))"
      unfolding worker_loop.simps(2) [of newRequest "d\<lparr>wg := wg d + 1\<rparr>" it "[it']"] Let_def sel
      by (simp only: select_case.case rc recv_outcome.case p outcome.case prod.case)
    then have "fst (worker_loop newRequest (d\<lparr>wg := wg d + 1\<rparr>) [it, it']) = [Request msg]"
      by (simp only: last) simp
    then show "fst (worker newRequest d [it, it']) = [Request msg]"
      by (simp only: worker_trace)
  }
  {
    assume no: "\<not> is2XX status"
    then obtain err where ce: "classifyStatus status msg = Some err"
      by (auto simp: classifyStatus_def)
    have se: "sendError ?d3 (w_receiver_waiting it) err = Panics"
      using f3(4) by (simp add: sendError_def try_send_def)
    have p: "process newRequest ?d2 (w_schedule it) (w_receiver_waiting it) msg = Panics"
      unfolding process_def assms(8) r using s ce se by simp
    have "worker_loop newRequest (d\<lparr>wg := wg d + 1\<rparr>) (it # [it']) = ([], Panics)"
      unfolding worker_loop.simps(2) [of newRequest "d\<lparr>wg := wg d + 1\<rparr>" it "[it']"] Let_def sel
      by (simp only: select_case.case rc recv_outcome.case p outcome.case prod.case)
    then show "snd (worker newRequest d [it, it']) = Panics"
      by (simp add: worker_def)
  }
qed

text \<open>
  C5. The claim is that \<open>Stop\<close> waits for the workers, bounded by the grace period, and
  returns the timeout error exactly when they do not all finish within it. \<open>Stop\<close> waits
  on the \<open>WaitGroup\<close>, and a worker is counted there by the first statement of its own
  goroutine, not by \<open>Start\<close>. For a client as \<open>NewClient\<close> makes it, with a grace duration
  above zero and at least one worker, a message enqueued, and \<open>Start\<close> called: workers
  are launched and none is counted, and a \<open>Stop\<close> that runs before they do returns \<open>nil\<close>
  having waited no time, whatever the workers go on to do. A worker that then runs and
  takes the message from the closed queue makes the request for it, after \<open>Stop\<close> has
  returned; with an answer other than 2xx it panics on the closed error channel.
\<close>

theorem Stop_before_workers_count:
  assumes "NewClient stock u opts = Returns c0"
      and "\<not> closed (stop (rl c0))"
      and "0 < shutDownGraceDuration (cfg c0)"
      and "0 < maxConcurrency (cfg c0)"
      and "Notify c0 [msg] = Returns (None, c1)"
      and "Start c1 = (c2, launched)"
      and "newRequest (url (cfg c0)) = None"
      and "httpClient c0 (url (cfg c0)) msg = Inr status"
      and "w_pick_first it" "w_schedule it = ob # obs"
      and "timer_age ob < defaultRateLimitRetryDuration"
  shows "0 < launched \<and> wg c2 = 0 \<and>
         Stop c2 env = Returns (None, stopped c2, 0) \<and>
         (is2XX status \<longrightarrow> fst (worker newRequest (stopped c2) [it, it']) = [Request msg]) \<and>
         (\<not> is2XX status \<longrightarrow> snd (worker newRequest (stopped c2) [it, it']) = Panics)"
proof -
  note fresh = NewClient_fresh [OF assms(1)]
  from assms(5) have c1: "c1 = c0\<lparr>msgs := (msgs c0)\<lparr>buf := [msg]\<rparr>\<rparr>"
    using fresh(4,5) by (auto simp: try_send_def split: if_splits)
  from assms(6) have c2: "c2 = c1" and n: "launched = nat (maxConcurrency (cfg c1))"
    by (auto simp: Start_def)
  have l: "0 < launched"
    using n c1 assms(4) by simp
  have w0: "wg c2 = 0"
    using c2 c1 fresh(1) by simp
  have op: "\<not> closed (stop (rl c2))" "\<not> closed (done_ch c2)"
           "\<not> closed (errs c2)" "\<not> closed (msgs c2)"
    using c2 c1 fresh assms(2) by simp_all
  have g: "0 < shutDownGraceDuration (cfg c2)"
    using c2 c1 assms(3) by simp
  have st: "Stop c2 env = Returns (None, stopped c2, 0)"
    using Stop_open [OF op, of env] waitWithTimeout_uncounted [OF w0 g, of env] by simp
  let ?d = "stopped c2"
  have d: "closed (done_ch ?d)" "closed (msgs ?d)" "closed (errs ?d)" "buf (msgs ?d) = [msg]"
          "newRequest (url (cfg ?d)) = None" "httpClient ?d (url (cfg ?d)) msg = Inr status"
    using c2 c1 assms(7,8) by (simp_all add: stopped_def)
  have a: "is2XX status \<longrightarrow> fst (worker newRequest ?d [it, it']) = [Request msg]"
    using worker_after_Stop(1) [of ?d msg newRequest status it ob obs it'] d assms(9-11)
    by blast
  have b: "\<not> is2XX status \<longrightarrow> snd (worker newRequest ?d [it, it']) = Panics"
    using worker_after_Stop(2) [of ?d msg newRequest status it ob obs it'] d assms(9-11)
    by blast
  from l w0 st a b show ?thesis
    by blast
qed

theorem Stop_before_workers_count_witness:
  "NewClient created_201 ''http://server/notification'' [WithMaxBufferSize 1, WithMaxConcurrency 1]
     = Returns small_client \<and>
   Notify small_client [''hello''] =
     Returns (None, small_client\<lparr>msgs := (new_chan 1)\<lparr>buf := [''hello'']\<rparr>\<rparr>) \<and>
   Start (small_client\<lparr>msgs := (new_chan 1)\<lparr>buf := [''hello'']\<rparr>\<rparr>) =
     (small_client\<lparr>msgs := (new_chan 1)\<lparr>buf := [''hello'']\<rparr>\<rparr>, 1) \<and>
   Stop (small_client\<lparr>msgs := (new_chan 1)\<lparr>buf := [''hello'']\<rparr>\<rparr>) never_done =
     Returns (None, stopped (small_client\<lparr>msgs := (new_chan 1)\<lparr>buf := [''hello'']\<rparr>\<rparr>), 0) \<and>
   fst (worker (\<lambda>u. None)
          (stopped (small_client\<lparr>msgs := (new_chan 1)\<lparr>buf := [''hello'']\<rparr>\<rparr>))
          [takes_queue, takes_queue]) = [Request ''hello''] \<and>
   snd (worker (\<lambda>u. None)
          (stopped (small_client\<lparr>httpClient := error_500,
                                  msgs := (new_chan 1)\<lparr>buf := [''hello'']\<rparr>\<rparr>))
          [takes_queue, takes_queue]) = Panics"
proof -
  let ?q = "small_client\<lparr>msgs := (new_chan 1)\<lparr>buf := [''hello'']\<rparr>\<rparr>"
  let ?s5 = "small_client\<lparr>httpClient := error_500\<rparr>"
  let ?q5 = "small_client\<lparr>httpClient := error_500, msgs := (new_chan 1)\<lparr>buf := [''hello'']\<rparr>\<rparr>"
  have n5: "NewClient error_500 ''http://server/notification''
              [WithMaxBufferSize 1, WithMaxConcurrency 1] = Returns ?s5"
    by (simp add: NewClient_def small_client_def make_chan_def)
  have o: "\<not> closed (stop (rl small_client))" "\<not> closed (stop (rl ?s5))"
    by (simp_all add: small_client_def ratelimiter_New_def new_chan_def)
  have g: "0 < shutDownGraceDuration (cfg small_client)" "0 < shutDownGraceDuration (cfg ?s5)"
    by (simp_all add: small_client_def defaultShutdownGraceDuration_def Second_def)
  have m: "0 < maxConcurrency (cfg small_client)" "0 < maxConcurrency (cfg ?s5)"
    by (simp_all add: small_client_def)
  have nt: "Notify small_client [''hello''] = Returns (None, ?q)"
    by (simp add: small_client_def new_chan_def try_send_def)
  have nt5: "Notify ?s5 [''hello''] = Returns (None, ?q5)"
    by (simp add: small_client_def new_chan_def try_send_def)
  have s: "Start ?q = (?q, 1)" "Start ?q5 = (?q5, 1)"
    by (simp_all add: Start_def small_client_def)
  have r: "(\<lambda>u. None) (url (cfg small_client)) = None" "(\<lambda>u. None) (url (cfg ?s5)) = None"
    by simp_all
  have h: "httpClient small_client (url (cfg small_client)) ''hello'' = Inr 201"
          "httpClient ?s5 (url (cfg ?s5)) ''hello'' = Inr 500"
    by (simp_all add: small_client_def created_201_def error_500_def)
  have i: "w_pick_first takes_queue" "w_schedule takes_queue = no_tick # []"
          "timer_age no_tick < defaultRateLimitRetryDuration"
    by (simp_all add: takes_queue_def no_tick_def defaultRateLimitRetryDuration_def Second_def)
  have x: "is2XX 201" "\<not> is2XX 500"
    by (simp_all add: is2XX_def)
  from Stop_before_workers_count [OF small_client_NewClient o(1) g(1) m(1) nt s(1) r(1) h(1) i,
         of never_done takes_queue] x(1)
  have 1: "Stop ?q never_done = Returns (None, stopped ?q, 0)"
    and 2: "fst (worker (\<lambda>u. None) (stopped ?q) [takes_queue, takes_queue]) = [Request ''hello'']"
    by blast+
  from Stop_before_workers_count [OF n5 o(2) g(2) m(2) nt5 s(2) r(2) h(2) i,
         of never_done takes_queue] x(2)
  have 3: "snd (worker (\<lambda>u. None) (stopped ?q5) [takes_queue, takes_queue]) = Panics"
    by blast
  from small_client_NewClient nt s(1) 1 2 3 show ?thesis
    by simp
qed

end
